theory Spec2Isabelle
  imports Main "HOL-Library.Char_ord" "HOL-Library.List_Lexorder"
begin

section \<open>Release notes generator: data model\<close>

text \<open>
  The script \<^verbatim>\<open>generate_release_notes.py\<close> walks over the merged pull requests of a
  milestone (first those of the main repository, then those of the docs repository),
  records who wrote and reviewed them, sorts the pull requests into sections by label and
  prints a Markdown report.

  Strings are lists of characters. Python compares strings by code point, which is the
  lexicographic order on \<^typ>\<open>char list\<close>. In two places the script hands a text to
  Python's library and the result depends on the Unicode tables:
  \<^verbatim>\<open>str.lower\<close> and the regular expression class \<^verbatim>\<open>[\w-]\<close>. What they do on ASCII
  text is defined here; what they do beyond ASCII is a parameter of the model. The ASCII
  characters are those up to \<open>CHR 0x7F\<close>; how a text writes what lies beyond ASCII
  (code points, or the bytes of UTF-8, which come in the same order) is left open, since
  the two parameters take whole texts.

  A Python \<^verbatim>\<open>set\<close> of logins is a duplicate-free list; its order stands for the
  order in which Python happens to iterate over the set. A \<^verbatim>\<open>dict\<close> that the
  script iterates over is an association list in insertion order; the \<^verbatim>\<open>users\<close>
  and correction dictionaries, which are only looked up, are maps.
\<close>

datatype error = AssertionError | KeyError

record user =
  login :: string
  name :: "string option"

record commit =
  committer :: "user option"
  author :: "user option"

record review =
  review_user :: "user option"

text \<open>
  A pull request as the script reads it: \<open>merge_commit\<close> is what
  \<^verbatim>\<open>repo.get_commit(pull.merge_commit_sha)\<close> returns, \<open>reviews\<close> what
  \<^verbatim>\<open>pull.get_reviews()\<close> yields, \<open>labels\<close> the names of \<^verbatim>\<open>pull.labels\<close> and
  \<open>issue_user\<close> the \<^verbatim>\<open>user\<close> of \<^verbatim>\<open>pull.as_issue()\<close>, which the script
  reads without a test for \<^verbatim>\<open>None\<close>. The number is the key under which a pull
  request is listed.
\<close>

record pull =
  number :: int
  title :: string
  labels :: "string list"
  merged :: bool
  merge_commit :: commit
  reviews :: "review list"
  issue_user :: user

record pr_info =
  summary :: string
  repo :: string

type_synonym users_dict = "string \<rightharpoonup> string"
type_synonym section_dict = "(int \<times> pr_info) list"
type_synonym highlights_dict = "(string \<times> section_dict) list"

subsection \<open>Characters and strings\<close>

definition is_upper :: "char \<Rightarrow> bool" where
  "is_upper c = (CHR ''A'' \<le> c \<and> c \<le> CHR ''Z'')"

definition is_lower :: "char \<Rightarrow> bool" where
  "is_lower c = (CHR ''a'' \<le> c \<and> c \<le> CHR ''z'')"

definition is_digit :: "char \<Rightarrow> bool" where
  "is_digit c = (CHR ''0'' \<le> c \<and> c \<le> CHR ''9'')"

definition is_ascii :: "char \<Rightarrow> bool" where
  "is_ascii c = (c \<le> CHR 0x7F)"

text \<open>
  Python's library beyond ASCII: \<open>unicode_lower\<close> is \<^verbatim>\<open>str.lower\<close> on a text that
  has a character outside ASCII, and \<open>unicode_run\<close> is the number of characters that
  \<^verbatim>\<open>[\w-]*\<close> matches at the start of a text that begins with a character outside
  ASCII.
\<close>

record unicode =
  unicode_lower :: "string \<Rightarrow> string"
  unicode_run :: "string \<Rightarrow> nat"

definition lower_char :: "char \<Rightarrow> char" where
  "lower_char c = (if is_upper c then char_of (of_char c + (32::nat)) else c)"

text \<open>\<^verbatim>\<open>s.lower()\<close>\<close>

definition lower :: "unicode \<Rightarrow> string \<Rightarrow> string" where
  "lower uc s = (if list_all is_ascii s then map lower_char s else unicode_lower uc s)"

text \<open>
  The ASCII characters of the class \<^verbatim>\<open>\w\<close> and of the class \<^verbatim>\<open>[\w-]\<close> of
  \<^verbatim>\<open>user_name_pattern\<close>.
\<close>

definition is_word_char :: "char \<Rightarrow> bool" where
  "is_word_char c = (is_lower c \<or> is_upper c \<or> is_digit c \<or> c = CHR ''_'')"

definition is_login_char :: "char \<Rightarrow> bool" where
  "is_login_char c = (is_word_char c \<or> c = CHR ''-'')"

subsection \<open>Sets and ordered dictionaries\<close>

definition set_add :: "'a \<Rightarrow> 'a list \<Rightarrow> 'a list" where
  "set_add x xs = (if x \<in> set xs then xs else xs @ [x])"

definition set_update :: "'a list \<Rightarrow> 'a list \<Rightarrow> 'a list" where
  "set_update xs ys = fold set_add ys xs"

definition set_minus :: "'a list \<Rightarrow> 'a set \<Rightarrow> 'a list" where
  "set_minus xs B = filter (\<lambda>x. x \<notin> B) xs"

definition set_union :: "'a list \<Rightarrow> 'a list \<Rightarrow> 'a list" where
  "set_union xs ys = xs @ filter (\<lambda>y. y \<notin> set xs) ys"

text \<open>\<^verbatim>\<open>d[k] = v\<close> on a dictionary that keeps insertion order.\<close>

fun dict_set :: "'k \<Rightarrow> 'v \<Rightarrow> ('k \<times> 'v) list \<Rightarrow> ('k \<times> 'v) list" where
  "dict_set k v [] = [(k, v)]"
| "dict_set k v ((k', v') # d) =
     (if k' = k then (k, v) # d else (k', v') # dict_set k v d)"

section \<open>The user directory\<close>

text \<open>
  \<^verbatim>\<open>
  def add_to_users(users, new_user):
      if new_user.login in users:
          # reduce obsolete requests to GitHub API
          return
      if new_user.login in correction_dict:
          users[new_user.login] = correction_dict[new_user.login]
      elif new_user.name is None:
          users[new_user.login] = new_user.login
      else:
          users[new_user.login] = new_user.name
  \<close>
  The correction dictionary is read from a file before anything else happens; it is a
  parameter here.
\<close>

definition add_to_users :: "users_dict \<Rightarrow> users_dict \<Rightarrow> user \<Rightarrow> users_dict" where
  "add_to_users correction_dict users new_user =
     (if users (login new_user) \<noteq> None then users
      else if correction_dict (login new_user) \<noteq> None
        then users(login new_user \<mapsto> the (correction_dict (login new_user)))
      else if name new_user = None
        then users(login new_user \<mapsto> login new_user)
      else users(login new_user \<mapsto> the (name new_user)))"

text \<open>
  The logins for which a sequence of calls of \<open>add_to_users\<close> gets past the early
  return, that is, for which the name is resolved, in the order of the calls.
\<close>

fun resolutions :: "users_dict \<Rightarrow> users_dict \<Rightarrow> user list \<Rightarrow> string list" where
  "resolutions correction_dict users [] = []"
| "resolutions correction_dict users (u # us) =
     (if users (login u) \<noteq> None then [] else [login u])
       @ resolutions correction_dict (add_to_users correction_dict users u) us"

section \<open>Collecting the pull requests\<close>

record state =
  authors :: "string list"
  committers :: "string list"
  docs_authors :: "string list"
  docs_committers :: "string list"
  reviewers :: "string list"
  docs_reviewers :: "string list"
  users :: users_dict
  highlights :: highlights_dict
  other_pull_requests :: section_dict

definition init_highlights :: highlights_dict where
  "init_highlights =
     [(''Highlights'', []), (''New Features'', []), (''Improvements'', []),
      (''Performance'', []), (''Bug Fixes'', []), (''API Changes'', []),
      (''Deprecations'', []), (''Build Tools'', []), (''Documentation'', [])]"

definition init_state :: state where
  "init_state =
     \<lparr>authors = [], committers = [], docs_authors = [], docs_committers = [],
      reviewers = [], docs_reviewers = [], users = Map.empty,
      highlights = init_highlights, other_pull_requests = []\<rparr>"

definition label_to_section :: "(string \<times> string) list" where
  "label_to_section =
     [(''bug'', ''Bug Fixes''), (''bugfix'', ''Bug Fixes''), (''feature'', ''New Features''),
      (''api'', ''API Changes''), (''highlight'', ''Highlights''),
      (''performance'', ''Performance''), (''enhancement'', ''Improvements''),
      (''deprecation'', ''Deprecations''), (''dependencies'', ''Build Tools''),
      (''documentation'', ''Documentation'')]"

text \<open>
  \<^verbatim>\<open>highlights[section][number] = info\<close>: reading \<^verbatim>\<open>highlights[section]\<close> raises
  \<^verbatim>\<open>KeyError\<close> (here \<open>None\<close>) when the section is not a key.
\<close>

fun section_set :: "string \<Rightarrow> int \<Rightarrow> pr_info \<Rightarrow> highlights_dict \<Rightarrow> highlights_dict option" where
  "section_set section n info [] = None"
| "section_set section n info ((s, d) # h) =
     (if s = section then Some ((s, dict_set n info d) # h)
      else map_option (Cons (s, d)) (section_set section n info h))"

definition add_committer :: "users_dict \<Rightarrow> state \<Rightarrow> user \<Rightarrow> state" where
  "add_committer correction_dict st u =
     st\<lparr>users := add_to_users correction_dict (users st) u,
        committers := set_add (login u) (committers st)\<rparr>"

definition add_author :: "users_dict \<Rightarrow> state \<Rightarrow> user \<Rightarrow> state" where
  "add_author correction_dict st u =
     st\<lparr>users := add_to_users correction_dict (users st) u,
        authors := set_add (login u) (authors st)\<rparr>"

definition add_reviewer :: "users_dict \<Rightarrow> state \<Rightarrow> user \<Rightarrow> state" where
  "add_reviewer correction_dict st u =
     st\<lparr>users := add_to_users correction_dict (users st) u,
        reviewers := set_add (login u) (reviewers st)\<rparr>"

definition add_docs_author :: "users_dict \<Rightarrow> state \<Rightarrow> user \<Rightarrow> state" where
  "add_docs_author correction_dict st u =
     st\<lparr>users := add_to_users correction_dict (users st) u,
        docs_authors := set_add (login u) (docs_authors st)\<rparr>"

definition add_docs_reviewer :: "users_dict \<Rightarrow> state \<Rightarrow> user \<Rightarrow> state" where
  "add_docs_reviewer correction_dict st u =
     st\<lparr>users := add_to_users correction_dict (users st) u,
        docs_reviewers := set_add (login u) (docs_reviewers st)\<rparr>"

text \<open>
  \<^verbatim>\<open>
  if commit.committer is not None:
      add_to_users(users, commit.committer)
      committers.add(commit.committer.login)
  if commit.author is not None:
      add_to_users(users, commit.author)
      authors.add(commit.author.login)
  \<close>
\<close>

definition commit_step :: "users_dict \<Rightarrow> state \<Rightarrow> commit \<Rightarrow> state" where
  "commit_step correction_dict st c =
     (let st1 = (case committer c of None \<Rightarrow> st
                 | Some u \<Rightarrow> add_committer correction_dict st u)
      in case author c of None \<Rightarrow> st1
         | Some u \<Rightarrow> add_author correction_dict st1 u)"

fun review_loop :: "users_dict \<Rightarrow> state \<Rightarrow> review list \<Rightarrow> state" where
  "review_loop correction_dict st [] = st"
| "review_loop correction_dict st (r # rs) =
     review_loop correction_dict
       (case review_user r of None \<Rightarrow> st | Some u \<Rightarrow> add_reviewer correction_dict st u) rs"

fun docs_review_loop :: "users_dict \<Rightarrow> state \<Rightarrow> review list \<Rightarrow> state" where
  "docs_review_loop correction_dict st [] = st"
| "docs_review_loop correction_dict st (r # rs) =
     docs_review_loop correction_dict
       (case review_user r of None \<Rightarrow> st | Some u \<Rightarrow> add_docs_reviewer correction_dict st u) rs"

text \<open>
  \<^verbatim>\<open>
  assigned_to_section = False
  pr_lables = {label.name.lower() for label in pull.labels}
  for label_name, section in label_to_section.items():
      if label_name in pr_lables:
          highlights[section][pull.number] = {'summary': summary, "repo": "napari"}
          assigned_to_section = True
  \<close>
  The loop runs over the whole table. It carries the sections and the flag; the error
  component says whether it was left by an exception.
\<close>

fun label_loop ::
  "string list \<Rightarrow> int \<Rightarrow> pr_info \<Rightarrow> (string \<times> string) list \<Rightarrow> highlights_dict \<times> bool
     \<Rightarrow> (highlights_dict \<times> bool) \<times> error option" where
  "label_loop pr_lables n info [] (h, assigned) = ((h, assigned), None)"
| "label_loop pr_lables n info ((label_name, section) # items) (h, assigned) =
     (if label_name \<in> set pr_lables
      then (case section_set section n info h of
              None \<Rightarrow> ((h, assigned), Some KeyError)
            | Some h' \<Rightarrow> label_loop pr_lables n info items (h', True))
      else label_loop pr_lables n info items (h, assigned))"

text \<open>
  The body of the loop over the pull requests of the main repository. The result is the
  state when the body is left, and the exception that left it, if any.
\<close>

definition pull_body ::
  "unicode \<Rightarrow> users_dict \<Rightarrow> state \<Rightarrow> pull \<Rightarrow> state \<times> error option" where
  "pull_body uc correction_dict st pull =
     (if \<not> merged pull then (st, Some AssertionError)
      else
        let st1 = commit_step correction_dict st (merge_commit pull);
            st2 = review_loop correction_dict st1 (reviews pull);
            info = \<lparr>summary = title pull, repo = ''napari''\<rparr>;
            pr_lables = map (lower uc) (labels pull)
        in case label_loop pr_lables (number pull) info label_to_section
                  (highlights st2, False) of
             ((h, assigned), Some e) \<Rightarrow> (st2\<lparr>highlights := h\<rparr>, Some e)
           | ((h, assigned), None) \<Rightarrow>
               (if \<not> assigned
                then st2\<lparr>highlights := h,
                         other_pull_requests :=
                           dict_set (number pull) info (other_pull_requests st2)\<rparr>
                else st2\<lparr>highlights := h\<rparr>,
                None))"

text \<open>
  The body of the loop over the pull requests of the docs repository:
  \<^verbatim>\<open>
  assert pull.merged
  add_to_users(users, issue.user)
  docs_authors.add(issue.user.login)
  summary = pull.title
  for review in pull.get_reviews(): ...
  pr_lables = {label.name.lower() for label in pull.labels}
  if "maintenance" in pr_lables:
      other_pull_requests[pull.number] = {'summary': summary, "repo": "docs"}
  else:
      highlights["Documentation"][pull.number] = {'summary': summary, "repo": "docs"}
  \<close>
\<close>

definition docs_pull_body ::
  "unicode \<Rightarrow> users_dict \<Rightarrow> state \<Rightarrow> pull \<Rightarrow> state \<times> error option" where
  "docs_pull_body uc correction_dict st pull =
     (if \<not> merged pull then (st, Some AssertionError)
      else
        let st1 = add_docs_author correction_dict st (issue_user pull);
            st2 = docs_review_loop correction_dict st1 (reviews pull);
            info = \<lparr>summary = title pull, repo = ''docs''\<rparr>;
            pr_lables = map (lower uc) (labels pull)
        in if ''maintenance'' \<in> set pr_lables
           then (st2\<lparr>other_pull_requests :=
                        dict_set (number pull) info (other_pull_requests st2)\<rparr>, None)
           else (case section_set ''Documentation'' (number pull) info (highlights st2) of
                   None \<Rightarrow> (st2, Some KeyError)
                 | Some h \<Rightarrow> (st2\<lparr>highlights := h\<rparr>, None)))"

text \<open>A \<^verbatim>\<open>for\<close> loop stops at the first body that raises.\<close>

fun for_loop :: "('s \<Rightarrow> 'a \<Rightarrow> 's \<times> error option) \<Rightarrow> 's \<Rightarrow> 'a list \<Rightarrow> 's \<times> error option" where
  "for_loop body st [] = (st, None)"
| "for_loop body st (x # xs) =
     (case body st x of
        (st', None) \<Rightarrow> for_loop body st' xs
      | (st', Some e) \<Rightarrow> (st', Some e))"

text \<open>
  After the two loops the script stores the other pull requests as the last section and
  removes the bots:
  \<^verbatim>\<open>
  highlights['Other Pull Requests'] = other_pull_requests
  committers -= BOT_LIST
  authors  -= BOT_LIST
  docs_committers -= BOT_LIST
  docs_authors -= BOT_LIST
  \<close>
  \<^verbatim>\<open>BOT_LIST\<close> is imported from another module; it is a parameter.
\<close>

definition finish :: "string set \<Rightarrow> state \<Rightarrow> state" where
  "finish BOT_LIST st =
     st\<lparr>highlights := dict_set ''Other Pull Requests'' (other_pull_requests st) (highlights st),
        committers := set_minus (committers st) BOT_LIST,
        authors := set_minus (authors st) BOT_LIST,
        docs_committers := set_minus (docs_committers st) BOT_LIST,
        docs_authors := set_minus (docs_authors st) BOT_LIST\<rparr>"

definition collect ::
  "unicode \<Rightarrow> users_dict \<Rightarrow> string set \<Rightarrow> pull list \<Rightarrow> pull list
     \<Rightarrow> state \<times> error option" where
  "collect uc correction_dict BOT_LIST pulls docs_pulls =
     (case for_loop (pull_body uc correction_dict) init_state pulls of
        (st1, Some e) \<Rightarrow> (st1, Some e)
      | (st1, None) \<Rightarrow>
          (case for_loop (docs_pull_body uc correction_dict) st1 docs_pulls of
             (st2, Some e) \<Rightarrow> (st2, Some e)
           | (st2, None) \<Rightarrow> (finish BOT_LIST st2, None)))"

section \<open>Prior reports and the output file\<close>

text \<open>
  The command line arguments: the milestone and the target directory. A directory is the
  list of its files, each with its name and its content. Without a target directory the
  report goes to the standard output.
\<close>

record args =
  milestone :: string
  target_directory :: "(string \<times> string) list option"

text \<open>The constants that the script imports from \<^verbatim>\<open>release_utils\<close>.\<close>

record release_utils =
  BOT_LIST :: "string set"
  GH :: string
  GH_USER :: string
  GH_REPO :: string

text \<open>\<^verbatim>\<open>s.replace('.', '_')\<close>\<close>

definition replace_dot :: "string \<Rightarrow> string" where
  "replace_dot s = map (\<lambda>c. if c = CHR ''.'' then CHR ''_'' else c) s"

text \<open>\<^verbatim>\<open>res_file_name = f"release_{args.milestone.replace('.', '_')}.md"\<close>\<close>

definition res_file_name :: "string \<Rightarrow> string" where
  "res_file_name m = ''release_'' @ replace_dot m @ ''.md''"

text \<open>The file names that \<^verbatim>\<open>glob("release_*.md")\<close> selects.\<close>

definition glob_release_md :: "string \<Rightarrow> bool" where
  "glob_release_md file_name =
     (11 \<le> length file_name \<and> take 8 file_name = ''release_''
      \<and> drop (length file_name - 3) file_name = ''.md'')"

text \<open>
  The number of characters that \<^verbatim>\<open>[\w-]*\<close> matches at the start of a text: the run
  goes on over the ASCII characters of the class, it ends before any other ASCII
  character, and from the first character outside ASCII on it is what the Unicode tables
  say.
\<close>

fun login_run :: "unicode \<Rightarrow> string \<Rightarrow> nat" where
  "login_run uc [] = 0"
| "login_run uc (c # cs) =
     (if is_ascii c then (if is_login_char c then Suc (login_run uc cs) else 0)
      else unicode_run uc (c # cs))"

text \<open>
  \<^verbatim>\<open>user_name_pattern.findall(text)\<close> for \<^verbatim>\<open>user_name_pattern = re.compile(r"@([\w-]+)")\<close>:
  the search goes from left to right; where an \<^verbatim>\<open>@\<close> is followed by at least one
  character of the class, the longest run of such characters is a match and the search
  goes on behind it.
\<close>

function findall :: "unicode \<Rightarrow> string \<Rightarrow> string list" where
  "findall uc [] = []"
| "findall uc (c # cs) =
     (if c = CHR ''@'' \<and> login_run uc cs \<noteq> 0
      then take (login_run uc cs) cs # findall uc (drop (login_run uc cs) cs)
      else findall uc cs)"
  by pat_completeness auto
termination
  by (relation "measure (\<lambda>(uc, s). length s)") auto

text \<open>
  \<^verbatim>\<open>
  old_contributors = set()
  if args.target_directory is None:
      file_handle = sys.stdout
  else:
      res_file_name = ...
      file_handle = open(args.target_directory / res_file_name, "w")
      for file_path in args.target_directory.glob("release_*.md"):
          if file_path.name == res_file_name:
              continue
          with open(file_path) as f:
              old_contributors.update(user_name_pattern.findall(f.read()))
  \<close>
\<close>

definition prior_reports :: "args \<Rightarrow> (string \<times> string) list" where
  "prior_reports a =
     (case target_directory a of
        None \<Rightarrow> []
      | Some files \<Rightarrow>
          filter (\<lambda>(file_name, content).
                    glob_release_md file_name \<and> file_name \<noteq> res_file_name (milestone a))
            files)"

definition old_contributors :: "unicode \<Rightarrow> args \<Rightarrow> string list" where
  "old_contributors uc a =
     fold (\<lambda>(file_name, content) old. set_update old (findall uc content)) (prior_reports a) []"

section \<open>Printing the report\<close>

definition newline :: string where
  "newline = [CHR 0x0A]"

definition print_line :: "string \<Rightarrow> string" where
  "print_line s = s @ newline"

definition digit_char :: "nat \<Rightarrow> char" where
  "digit_char d = char_of (48 + d)"

fun str_nat :: "nat \<Rightarrow> string" where
  "str_nat n = (if n < 10 then [digit_char n] else str_nat (n div 10) @ [digit_char (n mod 10)])"

declare str_nat.simps [simp del]

definition str_int :: "int \<Rightarrow> string" where
  "str_int i = (if i < 0 then CHR ''-'' # str_nat (nat (- i)) else str_nat (nat i))"

definition title_line :: "string \<Rightarrow> string" where
  "title_line m = ''# napari '' @ m"

definition announcement :: "string \<Rightarrow> string" where
  "announcement m =
     newline
     @ ''We'' @ [CHR 0x27] @ ''re happy to announce the release of napari '' @ m @ ''!'' @ newline
     @ ''napari is a fast, interactive, multi-dimensional image viewer for Python.'' @ newline
     @ ''It'' @ [CHR 0x27] @ ''s designed for browsing, annotating, and analyzing large multi-dimensional''
     @ newline
     @ ''images. It'' @ [CHR 0x27] @ ''s built on top of Qt (for the GUI), vispy (for performant GPU-based''
     @ newline
     @ ''rendering), and the scientific Python stack (numpy, scipy).'' @ newline"

definition website :: string where
  "website =
     newline
     @ ''For more information, examples, and documentation, please visit our website:'' @ newline
     @ ''https://github.com/napari/napari'' @ newline"

text \<open>
  \<^verbatim>\<open>
  for section, pull_request_dicts in highlights.items():
      print(f'## {section}\n', file=file_handle)
      for number, pull_request_info in pull_request_dicts.items():
          repo_str = pull_request_info["repo"]
          print(f'- {pull_request_info["summary"]} ([napari/{repo_str}/#{number}]'
                f'(https://{GH}/{GH_USER}/{repo_str}/pull/{number}))', file=file_handle)
      print("", file=file_handle)
  \<close>
\<close>

definition pull_request_line :: "release_utils \<Rightarrow> int \<times> pr_info \<Rightarrow> string" where
  "pull_request_line ru = (\<lambda>(n, info).
     ''- '' @ summary info @ '' ([napari/'' @ repo info @ ''/#'' @ str_int n
     @ ''](https://'' @ GH ru @ ''/'' @ GH_USER ru @ ''/'' @ repo info @ ''/pull/''
     @ str_int n @ ''))'')"

definition print_section :: "release_utils \<Rightarrow> string \<times> section_dict \<Rightarrow> string" where
  "print_section ru = (\<lambda>(section, pull_request_dicts).
     print_line (''## '' @ section @ newline)
     @ concat (map (\<lambda>p. print_line (pull_request_line ru p)) pull_request_dicts)
     @ print_line [])"

definition print_highlights :: "release_utils \<Rightarrow> highlights_dict \<Rightarrow> string" where
  "print_highlights ru h = concat (map (print_section ru) h)"

text \<open>
  \<^verbatim>\<open>sorted(contributor_set, key=lambda x: users[x].lower())\<close>: the keys of all elements
  are computed first, so a login that is not in \<^verbatim>\<open>users\<close> raises \<^verbatim>\<open>KeyError\<close>
  before anything is sorted. Both Python's \<^verbatim>\<open>sorted\<close> and \<open>sort_key\<close> are stable.
\<close>

definition sorted_by_name ::
  "unicode \<Rightarrow> users_dict \<Rightarrow> string list \<Rightarrow> error + string list" where
  "sorted_by_name uc users' cs =
     (if \<exists>c \<in> set cs. users' c = None then Inl KeyError
      else Inr (sort_key (\<lambda>x. lower uc (the (users' x))) cs))"

definition commit_link :: "release_utils \<Rightarrow> string \<Rightarrow> string" where
  "commit_link ru c =
     ''https://'' @ GH ru @ ''/'' @ GH_USER ru @ ''/'' @ GH_REPO ru @ ''/commits?author='' @ c"

definition contributor_line :: "release_utils \<Rightarrow> string \<Rightarrow> string \<Rightarrow> string" where
  "contributor_line ru display_name c =
     ''- ['' @ display_name @ '']('' @ commit_link ru c @ '') - @'' @ c"

text \<open>
  \<^verbatim>\<open>
  for c in sorted(...):
      commit_link = f"https://{GH}/{GH_USER}/{GH_REPO}/commits?author={c}"
      print("- [" + users[c] + "](" + commit_link + ") - @" + c, file=file_handle)
  \<close>
  (the script writes the line as one f-string). The result is what was printed and the exception that ended the loop, if any.
\<close>

fun print_contributors :: "release_utils \<Rightarrow> users_dict \<Rightarrow> string list \<Rightarrow> string \<times> error option" where
  "print_contributors ru users' [] = ([], None)"
| "print_contributors ru users' (c # cs) =
     (case users' c of
        None \<Rightarrow> ([], Some KeyError)
      | Some display_name \<Rightarrow>
          (case print_contributors ru users' cs of
             (out, e) \<Rightarrow> (print_line (contributor_line ru display_name c) @ out, e)))"

definition contributors_heading :: "string \<Rightarrow> string list \<Rightarrow> string" where
  "contributors_heading section_name contributor_set =
     ''## '' @ str_int (int (length contributor_set)) @ '' '' @ section_name
     @ '' added to this release (alphabetical)''"

text \<open>
  The loop over \<^verbatim>\<open>contributors.items()\<close>. The logins are strings, so the test
  \<^verbatim>\<open>None in contributor_set\<close> of the script is always false.
\<close>

fun contributors_loop ::
  "unicode \<Rightarrow> release_utils \<Rightarrow> users_dict \<Rightarrow> (string \<times> string list) list
     \<Rightarrow> string \<times> error option" where
  "contributors_loop uc ru users' [] = ([], None)"
| "contributors_loop uc ru users' ((section_name, contributor_set) # rest) =
     (let heading = print_line [] @ print_line (contributors_heading section_name contributor_set)
                    @ print_line []
      in case sorted_by_name uc users' contributor_set of
           Inl e \<Rightarrow> (heading, Some e)
         | Inr cs \<Rightarrow>
             (case print_contributors ru users' cs of
                (out, Some e) \<Rightarrow> (heading @ out, Some e)
              | (out, None) \<Rightarrow>
                  (case contributors_loop uc ru users' rest of
                     (out', e) \<Rightarrow> (heading @ out @ print_line [] @ out', e))))"

definition contributors :: "state \<Rightarrow> (string \<times> string list) list" where
  "contributors st =
     [(''authors'', authors st), (''reviewers'', reviewers st),
      (''docs authors'', docs_authors st), (''docs reviewers'', docs_reviewers st)]"

text \<open>\<^verbatim>\<open>new_contributors = (authors | docs_authors) - old_contributors\<close>\<close>

definition new_contributors :: "state \<Rightarrow> string list \<Rightarrow> string list" where
  "new_contributors st old = set_minus (set_union (authors st) (docs_authors st)) (set old)"

text \<open>
  \<^verbatim>\<open>
  if old_contributors and new_contributors:
      print("## New Contributors", file=file_handle)
      print("", file=file_handle)
      print(f"There are {len(new_contributors)} new contributors for this release:", ...)
      print("", file=file_handle)
      for c in sorted(new_contributors, key=lambda x: users[x].lower()): ...
  \<close>
\<close>

definition print_new_contributors ::
  "unicode \<Rightarrow> release_utils \<Rightarrow> users_dict \<Rightarrow> string list \<Rightarrow> string list
     \<Rightarrow> string \<times> error option" where
  "print_new_contributors uc ru users' old new =
     (if old \<noteq> [] \<and> new \<noteq> []
      then
        let heading = print_line ''## New Contributors'' @ print_line []
              @ print_line (''There are '' @ str_int (int (length new))
                            @ '' new contributors for this release:'')
              @ print_line []
        in case sorted_by_name uc users' new of
             Inl e \<Rightarrow> (heading, Some e)
           | Inr cs \<Rightarrow>
               (case print_contributors ru users' cs of (out, e) \<Rightarrow> (heading @ out, e))
      else ([], None))"

text \<open>
  The whole run: what is written to the output (the standard output or the report file)
  and the exception that ended the run, if any. Nothing is written before both loops
  over the pull requests are through.
\<close>

definition report_head :: "release_utils \<Rightarrow> args \<Rightarrow> state \<Rightarrow> string" where
  "report_head ru a st =
     print_line (title_line (milestone a)) @ print_line (announcement (milestone a))
     @ print_line website @ print_highlights ru (highlights st)"

definition main ::
  "unicode \<Rightarrow> users_dict \<Rightarrow> release_utils \<Rightarrow> args \<Rightarrow> pull list \<Rightarrow> pull list
     \<Rightarrow> string \<times> error option" where
  "main uc correction_dict ru a pulls docs_pulls =
     (case collect uc correction_dict (BOT_LIST ru) pulls docs_pulls of
        (st, Some e) \<Rightarrow> ([], Some e)
      | (st, None) \<Rightarrow>
          (case contributors_loop uc ru (users st) (contributors st) of
             (out, Some e) \<Rightarrow> (report_head ru a st @ out, Some e)
           | (out, None) \<Rightarrow>
               (case print_new_contributors uc ru (users st) (old_contributors uc a)
                       (new_contributors st (old_contributors uc a)) of
                  (out', e) \<Rightarrow> (report_head ru a st @ out @ out', e))))"

section \<open>Invariants of the collection\<close>

text \<open>The sections that the script creates at the start are the keys of \<open>highlights\<close>.\<close>

definition sections_ok :: "state \<Rightarrow> bool" where
  "sections_ok st = (map fst (highlights st) = map fst init_highlights)"

text \<open>Every login in a role set is a key of \<open>users\<close>.\<close>

definition logins_known :: "state \<Rightarrow> bool" where
  "logins_known st =
     (set (authors st) \<union> set (committers st) \<union> set (docs_authors st)
        \<union> set (docs_committers st) \<union> set (reviewers st) \<union> set (docs_reviewers st)
      \<subseteq> dom (users st))"

section \<open>Example data\<close>

definition alice :: user where
  "alice = \<lparr>login = ''alice'', name = None\<rparr>"

definition bot_user :: user where
  "bot_user = \<lparr>login = ''dependabot[bot]'', name = None\<rparr>"

text \<open>Pull request 100 of the main repository, a merged bug fix by \<open>alice\<close>.\<close>

definition pull_100 :: pull where
  "pull_100 =
     \<lparr>number = 100, title = ''Fix crash on load'', labels = [''bug''], merged = True,
      merge_commit = \<lparr>committer = Some alice, author = Some alice\<rparr>,
      reviews = [], issue_user = alice\<rparr>"

definition unmerged_pull :: pull where
  "unmerged_pull = pull_100\<lparr>number := 101, merged := False\<rparr>"

definition example_utils :: release_utils where
  "example_utils =
     \<lparr>BOT_LIST = {''dependabot[bot]''}, GH = ''github.com'', GH_USER = ''napari'',
      GH_REPO = ''napari''\<rparr>"

definition stdout_args :: args where
  "stdout_args = \<lparr>milestone = ''0.15.0'', target_directory = None\<rparr>"

text \<open>A pull request that the bot has reviewed.\<close>

definition bot_reviewed_pull :: pull where
  "bot_reviewed_pull = pull_100\<lparr>reviews := [\<lparr>review_user = Some bot_user\<rparr>]\<rparr>"

text \<open>
  A target directory with the report of an earlier release, in which \<open>alice\<close> is
  mentioned.
\<close>

definition earlier_report :: string where
  "earlier_report = ''- [alice](https://github.com/napari/napari/commits?author=alice) - @alice''"

definition file_args :: args where
  "file_args =
     \<lparr>milestone = ''0.15.0'',
      target_directory = Some [(''release_0_14_0.md'', earlier_report)]\<rparr>"

text \<open>A second author, for a run in which somebody is new.\<close>

definition bob :: user where
  "bob = \<lparr>login = ''bob'', name = Some ''Bob''\<rparr>"

definition pull_102 :: pull where
  "pull_102 =
     \<lparr>number = 102, title = ''Add a layer'', labels = [''Feature''], merged = True,
      merge_commit = \<lparr>committer = Some alice, author = Some bob\<rparr>,
      reviews = [], issue_user = bob\<rparr>"

section \<open>The file name as the specification words it\<close>

definition is_alnum :: "char \<Rightarrow> bool" where
  "is_alnum c = (is_lower c \<or> is_upper c \<or> is_digit c)"

text \<open>Every character that is not alphanumeric becomes an underscore.\<close>

definition spec_res_file_name :: "string \<Rightarrow> string" where
  "spec_res_file_name m =
     ''release_'' @ map (\<lambda>c. if is_alnum c then c else CHR ''_'') m @ ''.md''"

section \<open>The sections of a pull request\<close>

text \<open>The sections of \<open>h\<close> that list pull request \<open>n\<close>, in the order of the report.\<close>

definition sections_of :: "highlights_dict \<Rightarrow> int \<Rightarrow> string list" where
  "sections_of h n = map fst (filter (\<lambda>(s, d). n \<in> fst ` set d) h)"

text \<open>
  The same for a state of the collection, in which the other pull requests are not yet
  stored as the last section.
\<close>

definition placed_sections :: "state \<Rightarrow> int \<Rightarrow> string list" where
  "placed_sections st n =
     sections_of (highlights st) n
     @ (if n \<in> fst ` set (other_pull_requests st) then [''Other Pull Requests''] else [])"

text \<open>
  The classification as the specification words it: the section of the first key of the
  table that is among the labels, or the other pull requests if there is none.
\<close>

fun first_match_section :: "string list \<Rightarrow> (string \<times> string) list \<Rightarrow> string" where
  "first_match_section L [] = ''Other Pull Requests''"
| "first_match_section L ((label_name, section) # items) =
     (if label_name \<in> set L then section else first_match_section L items)"

text \<open>A pull request with two labels of the table.\<close>

definition two_label_pull :: pull where
  "two_label_pull = pull_100\<lparr>number := 103, labels := [''bug'', ''Feature'']\<rparr>"

section \<open>Texts without a mention\<close>

text \<open>A text in which the search for \<^verbatim>\<open>user_name_pattern\<close> has nothing to start from.\<close>

definition no_at :: "string \<Rightarrow> bool" where
  "no_at s = (CHR ''@'' \<notin> set s)"

text \<open>
  A login that the pattern matches as a whole whatever the Unicode tables say: not empty,
  and made of ASCII characters of the class.
\<close>

definition valid_login :: "string \<Rightarrow> bool" where
  "valid_login c = (c \<noteq> [] \<and> (\<forall>x \<in> set c. is_login_char x))"

definition no_at_dict :: "section_dict \<Rightarrow> bool" where
  "no_at_dict d = (\<forall>(n, info) \<in> set d. no_at (summary info) \<and> no_at (repo info))"

definition no_at_highlights :: "highlights_dict \<Rightarrow> bool" where
  "no_at_highlights h = (\<forall>(s, d) \<in> set h. no_at s \<and> no_at_dict d)"

definition titles_ok :: "state \<Rightarrow> bool" where
  "titles_ok st = (no_at_highlights (highlights st) \<and> no_at_dict (other_pull_requests st))"

text \<open>A pull request whose title mentions somebody.\<close>

definition mention_pull :: pull where
  "mention_pull = pull_100\<lparr>number := 104, title := ''Thanks @ghost''\<rparr>"

text \<open>A pull request by an author whose display name has an \<^verbatim>\<open>@\<close> in it.\<close>

definition eve :: user where
  "eve = \<lparr>login = ''eve'', name = Some ''Eve @home''\<rparr>"

definition pull_105 :: pull where
  "pull_105 = pull_100\<lparr>number := 105, merge_commit := \<lparr>committer = Some eve, author = Some eve\<rparr>\<rparr>"

section \<open>The layout of the contributor lists\<close>

text \<open>
  \<^verbatim>\<open>sorted(contributor_set, key=lambda x: users[x].lower())\<close> for a set whose logins are
  all in \<^verbatim>\<open>users\<close>.
\<close>

definition by_name :: "unicode \<Rightarrow> users_dict \<Rightarrow> string list \<Rightarrow> string list" where
  "by_name uc users' cs = sort_key (\<lambda>x. lower uc (the (users' x))) cs"

text \<open>
  What lines 235 to 261 of the script print for logins that are all in \<^verbatim>\<open>users\<close>,
  given the order \<open>cs\<close> in which the bullets come: the bullets, the section of a role
  set and the new contributors section.
\<close>

definition bullet_lines :: "release_utils \<Rightarrow> users_dict \<Rightarrow> string list \<Rightarrow> string" where
  "bullet_lines ru users' cs =
     concat (map (\<lambda>c. print_line (contributor_line ru (the (users' c)) c)) cs)"

definition role_section ::
  "release_utils \<Rightarrow> users_dict \<Rightarrow> string \<Rightarrow> string list \<Rightarrow> string" where
  "role_section ru users' section_name cs =
     print_line [] @ print_line (contributors_heading section_name cs) @ print_line []
     @ bullet_lines ru users' cs @ print_line []"

definition new_contributors_section ::
  "release_utils \<Rightarrow> users_dict \<Rightarrow> string list \<Rightarrow> string" where
  "new_contributors_section ru users' cs =
     print_line ''## New Contributors'' @ print_line []
     @ print_line (''There are '' @ str_int (int (length cs))
                   @ '' new contributors for this release:'')
     @ print_line []
     @ bullet_lines ru users' cs"





section \<open>Properties of the user directory\<close>

lemma add_to_users_known: "m (login u) \<noteq> None \<Longrightarrow> add_to_users cd m u = m"
  by (simp add: add_to_users_def)

lemma add_to_users_other: "l \<noteq> login u \<Longrightarrow> add_to_users cd m u l = m l"
  by (simp add: add_to_users_def)

lemma add_to_users_login: "add_to_users cd m u (login u) \<noteq> None"
  by (simp add: add_to_users_def)

lemma add_to_users_dom: "dom (add_to_users cd m u) = insert (login u) (dom m)"
  by (auto simp: add_to_users_def dom_def)

lemma add_to_users_map_le: "m \<subseteq>\<^sub>m add_to_users cd m u"
  by (auto simp: map_le_def add_to_users_def)

lemma resolutions_count:
  "count_list (resolutions cd m us) l
     = (if m l = None \<and> l \<in> login ` set us then 1 else 0)"
proof (induction us arbitrary: m)
  case Nil
  show ?case by simp
next
  case (Cons u us)
  show ?case
  proof (cases "l = login u")
    case True
    have "count_list (resolutions cd (add_to_users cd m u) us) l = 0"
      using Cons.IH [of "add_to_users cd m u"] True add_to_users_login [of cd m u] by simp
    with True show ?thesis by simp
  next
    case False
    then show ?thesis
      using add_to_users_other [of l u cd m] by (auto simp: Cons.IH)
  qed
qed

text \<open>
  C7. A login that is not yet in the directory gets the name from the correction table if
  the login is a key there, else the profile's name if that is not null, else the login
  itself.
\<close>

theorem add_to_users_priority:
  "m (login u) = None \<Longrightarrow>
     add_to_users cd m u (login u)
       = Some (case cd (login u) of
                 Some corrected_name \<Rightarrow> corrected_name
               | None \<Rightarrow> (case name u of Some n \<Rightarrow> n | None \<Rightarrow> login u))"
  by (auto simp: add_to_users_def split: option.splits)

theorem add_to_users_priority_witness:
  "add_to_users [''jni'' \<mapsto> ''Juan Nunez-Iglesias''] Map.empty
       \<lparr>login = ''jni'', name = Some ''Juan''\<rparr> ''jni'' = Some ''Juan Nunez-Iglesias''
   \<and> add_to_users [''jni'' \<mapsto> ''Juan Nunez-Iglesias''] Map.empty
       \<lparr>login = ''czaki'', name = Some ''Grzegorz Bokota''\<rparr> ''czaki'' = Some ''Grzegorz Bokota''
   \<and> add_to_users [''jni'' \<mapsto> ''Juan Nunez-Iglesias''] Map.empty
       \<lparr>login = ''alice'', name = None\<rparr> ''alice'' = Some ''alice''"
  using add_to_users_priority [of Map.empty "\<lparr>login = ''jni'', name = Some ''Juan''\<rparr>"
          "[''jni'' \<mapsto> ''Juan Nunez-Iglesias'']"]
        add_to_users_priority [of Map.empty "\<lparr>login = ''czaki'', name = Some ''Grzegorz Bokota''\<rparr>"
          "[''jni'' \<mapsto> ''Juan Nunez-Iglesias'']"]
        add_to_users_priority [of Map.empty "\<lparr>login = ''alice'', name = None\<rparr>"
          "[''jni'' \<mapsto> ''Juan Nunez-Iglesias'']"]
  by simp

text \<open>
  C4. A call of \<open>add_to_users\<close> for a login that is already a key returns the directory
  as it is; every call leaves the entries that are there as they are, so the directory
  only grows and a login keeps its name; and over any sequence of calls the name of a
  login is resolved once if the login was not a key at the start and occurs in the
  sequence, and not at all otherwise. Two users with the same login, as the authors of two
  pull requests are, give one resolution.
\<close>

theorem add_to_users_once:
  "(m (login u) \<noteq> None \<longrightarrow> add_to_users cd m u = m)
   \<and> m \<subseteq>\<^sub>m add_to_users cd m u
   \<and> count_list (resolutions cd m us) l
       = (if m l = None \<and> l \<in> login ` set us then 1 else 0)
   \<and> (m (login u) = None \<and> login u' = login u
        \<longrightarrow> resolutions cd m [u, u'] = [login u]
            \<and> add_to_users cd (add_to_users cd m u) u' = add_to_users cd m u)"
proof -
  have "add_to_users cd (add_to_users cd m u) u' = add_to_users cd m u"
    if "login u' = login u"
    using that add_to_users_login [of cd m u] add_to_users_known by metis
  moreover have "resolutions cd m [u, u'] = [login u]"
    if "m (login u) = None" "login u' = login u"
    using that add_to_users_login [of cd m u] by simp
  ultimately show ?thesis
    using add_to_users_known [of m u cd] add_to_users_map_le [of m cd u]
      resolutions_count [of cd m us l]
    by blast
qed

theorem add_to_users_once_witness:
  "add_to_users Map.empty [''alice'' \<mapsto> ''Alice''] \<lparr>login = ''alice'', name = Some ''Other''\<rparr>
     = [''alice'' \<mapsto> ''Alice'']
   \<and> resolutions Map.empty Map.empty
        [\<lparr>login = ''bob'', name = None\<rparr>, \<lparr>login = ''bob'', name = Some ''Bob''\<rparr>] = [''bob'']
   \<and> add_to_users Map.empty (add_to_users Map.empty Map.empty \<lparr>login = ''bob'', name = None\<rparr>)
        \<lparr>login = ''bob'', name = Some ''Bob''\<rparr>
       = add_to_users Map.empty Map.empty \<lparr>login = ''bob'', name = None\<rparr>"
  using add_to_users_once [of "[''alice'' \<mapsto> ''Alice'']"
          "\<lparr>login = ''alice'', name = Some ''Other''\<rparr>" Map.empty "[]" "''alice''"
          "\<lparr>login = ''alice'', name = Some ''Other''\<rparr>"]
        add_to_users_once [of Map.empty "\<lparr>login = ''bob'', name = None\<rparr>" Map.empty "[]"
          "''bob''" "\<lparr>login = ''bob'', name = Some ''Bob''\<rparr>"]
  by simp

section \<open>Properties of the collection\<close>

lemma set_set_add [simp]: "set (set_add x xs) = insert x (set xs)"
  by (auto simp: set_add_def)

lemma set_set_minus [simp]: "set (set_minus xs B) = set xs - B"
  by (auto simp: set_minus_def)

lemma set_set_union [simp]: "set (set_union xs ys) = set xs \<union> set ys"
  by (auto simp: set_union_def)

lemma section_set_keys: "section_set s n i h = Some h' \<Longrightarrow> map fst h' = map fst h"
  by (induction h arbitrary: h') (auto split: if_splits)

lemma section_set_Some: "s \<in> set (map fst h) \<Longrightarrow> section_set s n i h \<noteq> None"
proof (induction h)
  case Nil
  then show ?case by simp
next
  case (Cons sd h)
  obtain s' d where sd: "sd = (s', d)" by (cases sd)
  show ?case
  proof (cases "s' = s")
    case True
    with sd show ?thesis by simp
  next
    case False
    with Cons.prems sd have "s \<in> set (map fst h)" by auto
    from Cons.IH [OF this] False sd show ?thesis by simp
  qed
qed

lemma label_loop_ok:
  "snd ` set items \<subseteq> set (map fst h) \<Longrightarrow>
     \<exists>h' a'. label_loop L n i items (h, a) = ((h', a'), None) \<and> map fst h' = map fst h"
proof (induction items arbitrary: h a)
  case Nil
  show ?case by simp
next
  case (Cons item items)
  obtain k s where item: "item = (k, s)" by (cases item)
  show ?case
  proof (cases "k \<in> set L")
    case False
    then show ?thesis using Cons item by simp
  next
    case True
    from Cons.prems item have "s \<in> set (map fst h)" by simp
    then obtain h1 where h1: "section_set s n i h = Some h1"
      using section_set_Some [of s h n i] by auto
    then have keys: "map fst h1 = map fst h" by (rule section_set_keys)
    with Cons.prems have "snd ` set items \<subseteq> set (map fst h1)" by simp
    from Cons.IH [OF this, of True] keys True h1 item show ?thesis by auto
  qed
qed

lemma label_sections_init: "snd ` set label_to_section \<subseteq> set (map fst init_highlights)"
  by (simp add: label_to_section_def init_highlights_def)

lemma logins_known_commit_step:
  "logins_known st \<Longrightarrow> logins_known (commit_step cd st c)"
  by (auto simp: logins_known_def commit_step_def add_committer_def add_author_def
        add_to_users_dom split: option.splits)

lemma logins_known_review_loop:
  "logins_known st \<Longrightarrow> logins_known (review_loop cd st rs)"
proof (induction rs arbitrary: st)
  case Nil
  then show ?case by simp
next
  case (Cons r rs)
  have "logins_known (case review_user r of None \<Rightarrow> st | Some u \<Rightarrow> add_reviewer cd st u)"
    using Cons.prems
    by (auto simp: logins_known_def add_reviewer_def add_to_users_dom split: option.splits)
  then show ?case using Cons.IH by simp
qed

lemma logins_known_docs_review_loop:
  "logins_known st \<Longrightarrow> logins_known (docs_review_loop cd st rs)"
proof (induction rs arbitrary: st)
  case Nil
  then show ?case by simp
next
  case (Cons r rs)
  have "logins_known (case review_user r of None \<Rightarrow> st | Some u \<Rightarrow> add_docs_reviewer cd st u)"
    using Cons.prems
    by (auto simp: logins_known_def add_docs_reviewer_def add_to_users_dom split: option.splits)
  then show ?case using Cons.IH by simp
qed

lemma logins_known_add_docs_author:
  "logins_known st \<Longrightarrow> logins_known (add_docs_author cd st u)"
  by (auto simp: logins_known_def add_docs_author_def add_to_users_dom)

lemma highlights_review_loop [simp]:
  "highlights (review_loop cd st rs) = highlights st"
  by (induction rs arbitrary: st) (auto simp: add_reviewer_def split: option.splits)

lemma highlights_docs_review_loop [simp]:
  "highlights (docs_review_loop cd st rs) = highlights st"
  by (induction rs arbitrary: st) (auto simp: add_docs_reviewer_def split: option.splits)

lemma highlights_commit_step [simp]: "highlights (commit_step cd st c) = highlights st"
  by (simp add: commit_step_def add_committer_def add_author_def split: option.splits)

lemma logins_known_highlights [simp]:
  "logins_known (st\<lparr>highlights := h\<rparr>) = logins_known st"
  by (simp add: logins_known_def)

lemma logins_known_other [simp]:
  "logins_known (st\<lparr>other_pull_requests := d\<rparr>) = logins_known st"
  by (simp add: logins_known_def)

lemma pull_body_unmerged: "\<not> merged p \<Longrightarrow> pull_body uc cd st p = (st, Some AssertionError)"
  by (simp add: pull_body_def)

lemma docs_pull_body_unmerged:
  "\<not> merged p \<Longrightarrow> docs_pull_body uc cd st p = (st, Some AssertionError)"
  by (simp add: docs_pull_body_def)

lemma pull_body_merged:
  assumes "merged p" "sections_ok st" "logins_known st"
  shows "\<exists>st'. pull_body uc cd st p = (st', None) \<and> sections_ok st' \<and> logins_known st'"
proof -
  define st2 where "st2 = review_loop cd (commit_step cd st (merge_commit p)) (reviews p)"
  have known: "logins_known st2"
    unfolding st2_def using assms(3) by (intro logins_known_review_loop logins_known_commit_step)
  have keys: "map fst (highlights st2) = map fst init_highlights"
    using assms(2) by (simp add: st2_def sections_ok_def)
  have hl: "highlights st2 = highlights st" by (simp add: st2_def)
  from assms(2) have "snd ` set label_to_section \<subseteq> set (map fst (highlights st))"
    using label_sections_init by (simp only: sections_ok_def)
  from label_loop_ok [OF this]
  obtain h' a' where loop:
    "label_loop (map (lower uc) (labels p)) (number p) \<lparr>summary = title p, repo = ''napari''\<rparr>
       label_to_section (highlights st, False) = ((h', a'), None)"
    and keys': "map fst h' = map fst (highlights st)"
    by blast
  have body: "pull_body uc cd st p =
      (if \<not> a'
       then st2\<lparr>highlights := h',
                other_pull_requests :=
                  dict_set (number p) \<lparr>summary = title p, repo = ''napari''\<rparr>
                    (other_pull_requests st2)\<rparr>
       else st2\<lparr>highlights := h'\<rparr>, None)"
    using assms(1) loop by (simp add: pull_body_def Let_def st2_def)
  show ?thesis
    unfolding body using keys keys' known hl by (simp add: sections_ok_def)
qed

lemma docs_pull_body_merged:
  assumes "merged p" "sections_ok st" "logins_known st"
  shows "\<exists>st'. docs_pull_body uc cd st p = (st', None) \<and> sections_ok st' \<and> logins_known st'"
proof -
  define st2 where
    "st2 = docs_review_loop cd (add_docs_author cd st (issue_user p)) (reviews p)"
  have known: "logins_known st2"
    unfolding st2_def using assms(3)
    by (intro logins_known_docs_review_loop logins_known_add_docs_author)
  have keys: "map fst (highlights st2) = map fst init_highlights"
    using assms(2) by (simp add: st2_def sections_ok_def add_docs_author_def)
  then have "''Documentation'' \<in> set (map fst (highlights st2))"
    by (simp add: init_highlights_def)
  then obtain h where h: "section_set ''Documentation'' (number p)
      \<lparr>summary = title p, repo = ''docs''\<rparr> (highlights st2) = Some h"
    using section_set_Some [of "''Documentation''" "highlights st2"] by auto
  then have keys': "map fst h = map fst (highlights st2)" by (rule section_set_keys)
  have body: "docs_pull_body uc cd st p =
      (if ''maintenance'' \<in> set (map (lower uc) (labels p))
       then (st2\<lparr>other_pull_requests :=
                    dict_set (number p) \<lparr>summary = title p, repo = ''docs''\<rparr>
                      (other_pull_requests st2)\<rparr>, None)
       else (st2\<lparr>highlights := h\<rparr>, None))"
    using assms(1) h by (simp add: docs_pull_body_def Let_def st2_def)
  show ?thesis
    unfolding body using keys keys' known by (simp add: sections_ok_def)
qed

lemma for_loop_inv:
  assumes step: "\<And>st x. I st \<Longrightarrow> good x \<Longrightarrow> \<exists>st'. body st x = (st', None) \<and> I st'"
    and stop: "\<And>st x. \<not> good x \<Longrightarrow> body st x = (st, Some err)"
    and inv: "I st"
  shows "\<exists>st'. for_loop body st xs = (st', if \<forall>x \<in> set xs. good x then None else Some err)
           \<and> I st'"
  using inv
proof (induction xs arbitrary: st)
  case Nil
  then show ?case by simp
next
  case (Cons x xs)
  show ?case
  proof (cases "good x")
    case False
    with stop [of x st] Cons.prems show ?thesis by simp
  next
    case True
    from step [OF Cons.prems True] obtain st1 where st1: "body st x = (st1, None)" "I st1"
      by blast
    from Cons.IH [OF st1(2)] st1(1) True show ?thesis by simp
  qed
qed

lemma for_loop_append:
  "for_loop body st (xs @ ys) =
     (case for_loop body st xs of
        (st', None) \<Rightarrow> for_loop body st' ys
      | (st', Some e) \<Rightarrow> (st', Some e))"
  by (induction xs arbitrary: st) (auto split: prod.splits option.splits)

lemma for_loop_stops:
  assumes "for_loop body st pre = (st1, None)" "body st1 x = (st2, Some e)"
  shows "for_loop body st (pre @ x # post) = (st2, Some e)"
  using assms by (simp add: for_loop_append)

lemma pull_loop_result:
  assumes "sections_ok st" "logins_known st"
  shows "\<exists>st'. for_loop (pull_body uc cd) st ps
             = (st', if \<forall>p \<in> set ps. merged p then None else Some AssertionError)
           \<and> sections_ok st' \<and> logins_known st'"
proof -
  have "\<exists>st'. for_loop (pull_body uc cd) st ps
             = (st', if \<forall>p \<in> set ps. merged p then None else Some AssertionError)
           \<and> (sections_ok st' \<and> logins_known st')"
  proof (rule for_loop_inv [where I = "\<lambda>s. sections_ok s \<and> logins_known s"])
    show "\<exists>st'. pull_body uc cd s x = (st', None) \<and> sections_ok st' \<and> logins_known st'"
      if "sections_ok s \<and> logins_known s" "merged x" for s x
      using that pull_body_merged by blast
    show "pull_body uc cd s x = (s, Some AssertionError)" if "\<not> merged x" for s x
      using that by (rule pull_body_unmerged)
    show "sections_ok st \<and> logins_known st" using assms by simp
  qed
  then show ?thesis by blast
qed

lemma docs_pull_loop_result:
  assumes "sections_ok st" "logins_known st"
  shows "\<exists>st'. for_loop (docs_pull_body uc cd) st ps
             = (st', if \<forall>p \<in> set ps. merged p then None else Some AssertionError)
           \<and> sections_ok st' \<and> logins_known st'"
proof -
  have "\<exists>st'. for_loop (docs_pull_body uc cd) st ps
             = (st', if \<forall>p \<in> set ps. merged p then None else Some AssertionError)
           \<and> (sections_ok st' \<and> logins_known st')"
  proof (rule for_loop_inv [where I = "\<lambda>s. sections_ok s \<and> logins_known s"])
    show "\<exists>st'. docs_pull_body uc cd s x = (st', None) \<and> sections_ok st' \<and> logins_known st'"
      if "sections_ok s \<and> logins_known s" "merged x" for s x
      using that docs_pull_body_merged by blast
    show "docs_pull_body uc cd s x = (s, Some AssertionError)" if "\<not> merged x" for s x
      using that by (rule docs_pull_body_unmerged)
    show "sections_ok st \<and> logins_known st" using assms by simp
  qed
  then show ?thesis by blast
qed

lemma init_state_ok: "sections_ok init_state \<and> logins_known init_state"
  by (simp add: sections_ok_def logins_known_def init_state_def)

lemma logins_known_finish: "logins_known st \<Longrightarrow> logins_known (finish bots st)"
  by (auto simp: logins_known_def finish_def)

lemma collect_result:
  "\<exists>st. collect uc cd bots pulls docs_pulls
          = (st, if \<forall>p \<in> set pulls \<union> set docs_pulls. merged p then None
                 else Some AssertionError)
        \<and> logins_known st"
proof -
  from pull_loop_result [of init_state uc cd pulls] init_state_ok
  obtain st1 where st1: "for_loop (pull_body uc cd) init_state pulls
        = (st1, if \<forall>p \<in> set pulls. merged p then None else Some AssertionError)"
    "sections_ok st1" "logins_known st1"
    by blast
  from pull_loop_result docs_pull_loop_result [OF st1(2,3), of uc cd docs_pulls]
  obtain st2 where st2: "for_loop (docs_pull_body uc cd) st1 docs_pulls
        = (st2, if \<forall>p \<in> set docs_pulls. merged p then None else Some AssertionError)"
    "logins_known st2"
    by blast
  show ?thesis
  proof (cases "\<forall>p \<in> set pulls. merged p")
    case False
    with st1 show ?thesis by (auto simp: collect_def)
  next
    case True
    note pulls_ok = this
    show ?thesis
    proof (cases "\<forall>p \<in> set docs_pulls. merged p")
      case False
      with pulls_ok st1 st2 show ?thesis by (auto simp: collect_def)
    next
      case True
      with pulls_ok st1 st2 logins_known_finish [OF st2(2), of bots] show ?thesis
        by (auto simp: collect_def)
    qed
  qed
qed

text \<open>
  C8. The body of either loop leaves the run with an \<open>AssertionError\<close> when the pull
  request is not merged, and the state is then the state in which the body was entered:
  nothing of this pull request is recorded or classified. A run over pull requests of
  which one is not merged ends with that error and prints nothing. When the pull requests
  before the unmerged one are merged, the state at the abort is the state that these have
  left.
\<close>

theorem unmerged_pull_aborts:
  assumes "\<not> merged p"
  shows "pull_body uc cd st p = (st, Some AssertionError)
    \<and> docs_pull_body uc cd st p = (st, Some AssertionError)
    \<and> (p \<in> set pulls \<union> set docs_pulls
         \<longrightarrow> main uc cd ru a pulls docs_pulls = ([], Some AssertionError))
    \<and> ((\<forall>q \<in> set pre. merged q)
         \<longrightarrow> collect uc cd bots (pre @ p # post) docs_pulls
             = (fst (for_loop (pull_body uc cd) init_state pre), Some AssertionError))
    \<and> ((\<forall>q \<in> set pulls \<union> set pre. merged q)
         \<longrightarrow> collect uc cd bots pulls (pre @ p # post)
             = (fst (for_loop (docs_pull_body uc cd)
                       (fst (for_loop (pull_body uc cd) init_state pulls)) pre),
                Some AssertionError))"
proof -
  have body: "pull_body uc cd s p = (s, Some AssertionError)"
    and docs_body: "docs_pull_body uc cd s p = (s, Some AssertionError)" for s
    using assms by (simp_all add: pull_body_unmerged docs_pull_body_unmerged)
  have run: "main uc cd ru a pulls docs_pulls = ([], Some AssertionError)"
    if "p \<in> set pulls \<union> set docs_pulls"
  proof -
    from that assms have "\<not> (\<forall>q \<in> set pulls \<union> set docs_pulls. merged q)" by blast
    with collect_result [of uc cd "BOT_LIST ru" pulls docs_pulls]
    obtain s where "collect uc cd (BOT_LIST ru) pulls docs_pulls = (s, Some AssertionError)"
      by auto
    then show ?thesis by (simp add: main_def)
  qed
  have first: "collect uc cd bots (pre @ p # post) docs_pulls
      = (fst (for_loop (pull_body uc cd) init_state pre), Some AssertionError)"
    if "\<forall>q \<in> set pre. merged q"
  proof -
    from pull_loop_result [of init_state uc cd pre] init_state_ok that
    obtain s where s: "for_loop (pull_body uc cd) init_state pre = (s, None)" by auto
    from for_loop_stops [OF s body [of s], of post] s show ?thesis
      by (simp add: collect_def)
  qed
  have second: "collect uc cd bots pulls (pre @ p # post)
      = (fst (for_loop (docs_pull_body uc cd)
                (fst (for_loop (pull_body uc cd) init_state pulls)) pre),
         Some AssertionError)"
    if "\<forall>q \<in> set pulls \<union> set pre. merged q"
  proof -
    from pull_loop_result [of init_state uc cd pulls] init_state_ok that
    obtain s1 where s1: "for_loop (pull_body uc cd) init_state pulls = (s1, None)"
      "sections_ok s1" "logins_known s1" by auto
    from docs_pull_loop_result [OF s1(2,3), of uc cd pre] that
    obtain s2 where s2: "for_loop (docs_pull_body uc cd) s1 pre = (s2, None)" by auto
    from for_loop_stops [OF s2 docs_body [of s2], of post] s1(1) s2 show ?thesis
      by (simp add: collect_def)
  qed
  from body docs_body run first second show ?thesis by blast
qed

theorem unmerged_pull_aborts_witness:
  "\<forall>uc. \<not> merged unmerged_pull
   \<and> pull_body uc Map.empty init_state unmerged_pull = (init_state, Some AssertionError)
   \<and> docs_pull_body uc Map.empty init_state unmerged_pull = (init_state, Some AssertionError)
   \<and> main uc Map.empty example_utils stdout_args [pull_100, unmerged_pull] []
       = ([], Some AssertionError)
   \<and> collect uc Map.empty {} ([pull_100] @ unmerged_pull # []) []
       = (fst (for_loop (pull_body uc Map.empty) init_state [pull_100]), Some AssertionError)
   \<and> collect uc Map.empty {} [pull_100] ([pull_100] @ unmerged_pull # [])
       = (fst (for_loop (docs_pull_body uc Map.empty)
                 (fst (for_loop (pull_body uc Map.empty) init_state [pull_100])) [pull_100]),
          Some AssertionError)"
  (is "\<forall>uc. ?P uc")
proof (intro allI)
  fix uc
  have unmerged: "\<not> merged unmerged_pull" by (simp add: unmerged_pull_def)
  have merged: "merged pull_100" by (simp add: pull_100_def)
  from unmerged merged
    unmerged_pull_aborts [OF unmerged, where uc = uc and cd = Map.empty and st = init_state
      and pulls = "[pull_100, unmerged_pull]" and docs_pulls = "[]" and ru = example_utils
      and a = stdout_args and pre = "[pull_100]" and post = "[]" and bots = "{}"]
    unmerged_pull_aborts [OF unmerged, where uc = uc and cd = Map.empty and st = init_state
      and pulls = "[pull_100]" and docs_pulls = "[]" and ru = example_utils
      and a = stdout_args and pre = "[pull_100]" and post = "[]" and bots = "{}"]
  show "?P uc" by simp
qed

section \<open>Properties of the printed contributor lists\<close>

lemma sorted_by_name_ok:
  "set cs \<subseteq> dom m \<Longrightarrow> sorted_by_name uc m cs = Inr (sort_key (\<lambda>x. lower uc (the (m x))) cs)"
  by (auto simp: sorted_by_name_def)

lemma print_contributors_ok:
  "set cs \<subseteq> dom m \<Longrightarrow>
     print_contributors ru m cs
       = (concat (map (\<lambda>c. print_line (contributor_line ru (the (m c)) c)) cs), None)"
  by (induction cs) auto

lemma contributors_loop_ok:
  "\<forall>cs \<in> snd ` set sets. set cs \<subseteq> dom m \<Longrightarrow> snd (contributors_loop uc ru m sets) = None"
proof (induction sets)
  case Nil
  show ?case by simp
next
  case (Cons s sets)
  obtain section_name cs where s: "s = (section_name, cs)" by (cases s)
  with Cons.prems have cs: "set cs \<subseteq> dom m" by simp
  then have sorted: "set (sort_key (\<lambda>x. lower uc (the (m x))) cs) \<subseteq> dom m" by simp
  from Cons have "snd (contributors_loop uc ru m sets) = None" by simp
  then show ?case
    using s sorted_by_name_ok [OF cs] print_contributors_ok [OF sorted]
    by (auto simp: Let_def split: prod.splits)
qed

lemma print_new_contributors_ok:
  "set new \<subseteq> dom m \<Longrightarrow> snd (print_new_contributors uc ru m old new) = None"
proof -
  assume new: "set new \<subseteq> dom m"
  then have sorted: "set (sort_key (\<lambda>x. lower uc (the (m x))) new) \<subseteq> dom m" by simp
  show ?thesis
    using sorted_by_name_ok [OF new] print_contributors_ok [OF sorted]
    by (simp add: print_new_contributors_def Let_def)
qed

text \<open>
  C10. In the state that the collection leaves, every login of the four printed role sets
  and of the new contributors is a key of \<open>users\<close>; so neither the loop over the role
  sets nor the new contributors section raises a \<open>KeyError\<close>, and no run ends with
  one.
\<close>

theorem printed_logins_in_users:
  "(let st = fst (collect uc cd bots pulls docs_pulls) in
      set (authors st) \<union> set (reviewers st) \<union> set (docs_authors st)
          \<union> set (docs_reviewers st) \<union> set (new_contributors st old) \<subseteq> dom (users st)
      \<and> snd (contributors_loop uc ru (users st) (contributors st)) = None
      \<and> snd (print_new_contributors uc ru (users st) old (new_contributors st old)) = None)
   \<and> snd (main uc cd ru a pulls docs_pulls) \<noteq> Some KeyError"
proof -
  define st where "st = fst (collect uc cd bots pulls docs_pulls)"
  from collect_result [of uc cd bots pulls docs_pulls] have known: "logins_known st"
    by (auto simp: st_def)
  then have sets: "set (authors st) \<union> set (reviewers st) \<union> set (docs_authors st)
          \<union> set (docs_reviewers st) \<union> set (new_contributors st old) \<subseteq> dom (users st)"
    by (auto simp: logins_known_def new_contributors_def)
  then have loop: "snd (contributors_loop uc ru' (users st) (contributors st)) = None" for ru'
    by (intro contributors_loop_ok) (simp add: contributors_def)
  have new: "snd (print_new_contributors uc ru' (users st) old' (new_contributors st old')) = None"
    for ru' old'
    using known
    by (intro print_new_contributors_ok) (auto simp: logins_known_def new_contributors_def)
  have "snd (main uc cd ru a pulls docs_pulls) \<noteq> Some KeyError"
  proof -
    define st' where "st' = fst (collect uc cd (BOT_LIST ru) pulls docs_pulls)"
    from collect_result [of uc cd "BOT_LIST ru" pulls docs_pulls]
    obtain e where c: "collect uc cd (BOT_LIST ru) pulls docs_pulls = (st', e)"
      "e = None \<or> e = Some AssertionError" "logins_known st'"
      by (auto simp: st'_def split: if_splits)
    from c(3) have "set (authors st') \<union> set (reviewers st') \<union> set (docs_authors st')
          \<union> set (docs_reviewers st') \<subseteq> dom (users st')"
      by (auto simp: logins_known_def)
    then have l: "snd (contributors_loop uc ru (users st') (contributors st')) = None"
      by (intro contributors_loop_ok) (simp add: contributors_def)
    have n: "snd (print_new_contributors uc ru (users st') (old_contributors uc a)
                (new_contributors st' (old_contributors uc a))) = None"
      using c(3)
      by (intro print_new_contributors_ok) (auto simp: logins_known_def new_contributors_def)
    from c(1,2) l n show ?thesis
      by (auto simp: main_def split: prod.splits option.splits)
  qed
  with sets loop new show ?thesis by (simp add: st_def Let_def)
qed


lemma set_by_name [simp]: "set (by_name uc m cs) = set cs"
  by (simp add: by_name_def)

lemma length_by_name [simp]: "length (by_name uc m cs) = length cs"
  by (simp add: by_name_def)

lemma by_name_Nil [simp]: "by_name uc m [] = []"
  by (simp add: by_name_def)

lemma contributors_heading_length:
  "length cs = length cs' \<Longrightarrow>
     contributors_heading section_name cs = contributors_heading section_name cs'"
  by (simp add: contributors_heading_def)

lemma print_contributors_bullets:
  "set cs \<subseteq> dom m \<Longrightarrow>
     print_contributors ru m (by_name uc m cs) = (bullet_lines ru m (by_name uc m cs), None)"
  using print_contributors_ok [of "by_name uc m cs" m ru] by (simp add: bullet_lines_def)

lemma contributors_loop_output:
  "\<forall>cs \<in> snd ` set sets. set cs \<subseteq> dom m \<Longrightarrow>
     contributors_loop uc ru m sets
       = (concat (map (\<lambda>(section_name, cs). role_section ru m section_name (by_name uc m cs))
            sets), None)"
proof (induction sets)
  case Nil
  show ?case by simp
next
  case (Cons s sets)
  obtain section_name cs where s: "s = (section_name, cs)" by (cases s)
  with Cons.prems have cs: "set cs \<subseteq> dom m" by simp
  from Cons have rest: "contributors_loop uc ru m sets
       = (concat (map (\<lambda>(section_name, cs). role_section ru m section_name (by_name uc m cs))
            sets), None)"
    by simp
  have sorted: "sorted_by_name uc m cs = Inr (by_name uc m cs)"
    using sorted_by_name_ok [OF cs] by (simp add: by_name_def)
  have heading: "contributors_heading section_name cs
      = contributors_heading section_name (by_name uc m cs)"
    by (rule contributors_heading_length) simp
  show ?case
    using s sorted print_contributors_bullets [OF cs] rest heading
    by (simp add: role_section_def)
qed

lemma print_new_contributors_output:
  assumes "set new \<subseteq> dom m"
  shows "print_new_contributors uc ru m old new
    = (if old \<noteq> [] \<and> new \<noteq> [] then new_contributors_section ru m (by_name uc m new) else [],
       None)"
proof -
  have sorted: "sorted_by_name uc m new = Inr (by_name uc m new)"
    using sorted_by_name_ok [OF assms] by (simp add: by_name_def)
  show ?thesis
    using sorted print_contributors_bullets [OF assms]
    by (simp add: print_new_contributors_def new_contributors_section_def)
qed

lemma collect_logins_known:
  assumes "collect uc cd bots pulls docs_pulls = (st, e)"
  shows "logins_known st"
  using collect_result [of uc cd bots pulls docs_pulls] assms by auto

lemma main_output:
  assumes "collect uc cd (BOT_LIST ru) pulls docs_pulls = (st, None)"
  shows "main uc cd ru a pulls docs_pulls
    = (report_head ru a st
       @ fst (contributors_loop uc ru (users st) (contributors st))
       @ (if old_contributors uc a \<noteq> [] \<and> new_contributors st (old_contributors uc a) \<noteq> []
          then new_contributors_section ru (users st)
                 (by_name uc (users st) (new_contributors st (old_contributors uc a)))
          else []),
       None)"
proof -
  from collect_logins_known [OF assms] have known: "logins_known st" .
  then have "\<forall>cs \<in> snd ` set (contributors st). set cs \<subseteq> dom (users st)"
    by (auto simp: logins_known_def contributors_def)
  from contributors_loop_output [OF this]
  have loop: "snd (contributors_loop uc ru (users st) (contributors st)) = None"
    by simp
  from known have "set (new_contributors st (old_contributors uc a)) \<subseteq> dom (users st)"
    by (auto simp: logins_known_def new_contributors_def)
  from print_new_contributors_output [OF this]
  have new: "print_new_contributors uc ru (users st) (old_contributors uc a)
        (new_contributors st (old_contributors uc a))
      = (if old_contributors uc a \<noteq> [] \<and> new_contributors st (old_contributors uc a) \<noteq> []
         then new_contributors_section ru (users st)
                (by_name uc (users st) (new_contributors st (old_contributors uc a)))
         else [], None)" .
  obtain out e where out: "contributors_loop uc ru (users st) (contributors st) = (out, e)"
    by (cases "contributors_loop uc ru (users st) (contributors st)")
  with loop have "e = None" by simp
  with assms out new show ?thesis by (simp add: main_def)
qed



section \<open>Bots among the contributors\<close>

lemma bots_removed_from_authors:
  assumes "collect uc cd bots pulls docs_pulls = (st, None)"
  shows "set (authors st) \<inter> bots = {} \<and> set (docs_authors st) \<inter> bots = {}"
  using assms
  by (auto simp: collect_def finish_def split: prod.splits option.splits)

text \<open>
  C2. The reviewers are not among the sets from which the script removes the bots. A bot
  that has reviewed a pull request of the main repository is in \<open>reviewers\<close> at the end
  of the collection and gets its bullet in the list of reviewers.
\<close>

theorem bot_reviewer_is_printed:
  "\<forall>uc. ''dependabot[bot]'' \<in> BOT_LIST example_utils
   \<and> (let st = fst (collect uc Map.empty (BOT_LIST example_utils) [bot_reviewed_pull] []) in
        reviewers st = [''dependabot[bot]'']
        \<and> sorted_by_name uc (users st) (reviewers st) = Inr [''dependabot[bot]'']
        \<and> print_contributors example_utils (users st) [''dependabot[bot]'']
            = (''- [dependabot[bot]](https://github.com/napari/napari/commits?author=dependabot[bot])''
               @ '' - @dependabot[bot]'' @ newline, None))
   \<and> snd (main uc Map.empty example_utils stdout_args [bot_reviewed_pull] []) = None"
  by (intro allI) code_simp

section \<open>The new contributors section\<close>

lemma print_line_not_empty [simp]: "print_line s \<noteq> []"
  by (simp add: print_line_def newline_def)

lemma new_contributors_section_not_empty: "new_contributors_section ru m cs \<noteq> []"
  by (simp add: new_contributors_section_def)

lemma set_set_update [simp]: "set (set_update xs ys) = set xs \<union> set ys"
  unfolding set_update_def by (induction ys arbitrary: xs) auto

lemma set_old_contributors_fold:
  "set (fold (\<lambda>(file_name, content) old. set_update old (findall uc content)) rs acc)
     = set acc \<union> (\<Union>(file_name, content) \<in> set rs. set (findall uc content))"
  by (induction rs arbitrary: acc) auto

lemma set_old_contributors:
  "set (old_contributors uc a)
     = (case target_directory a of
          None \<Rightarrow> {}
        | Some files \<Rightarrow>
            (\<Union>(file_name, content)
                \<in> {f \<in> set files. glob_release_md (fst f) \<and> fst f \<noteq> res_file_name (milestone a)}.
               set (findall uc content)))"
proof (cases "target_directory a")
  case None
  then show ?thesis by (simp add: old_contributors_def prior_reports_def)
next
  case (Some files)
  have "set (prior_reports a)
      = {f \<in> set files. glob_release_md (fst f) \<and> fst f \<noteq> res_file_name (milestone a)}"
    using Some by (auto simp: prior_reports_def)
  with Some show ?thesis
    by (simp add: old_contributors_def set_old_contributors_fold)
qed

lemma set_new_contributors:
  "set (new_contributors st old) = (set (authors st) \<union> set (docs_authors st)) - set old"
  by (simp add: new_contributors_def)

text \<open>
  C3, as the script has it. A run that gets through the collection prints the new
  contributors section, behind the sections of the role sets, if and only if
  \<open>old_contributors\<close> and \<open>new_contributors\<close> are both not empty. The old contributors
  are the logins that the pattern finds in the files of the target directory whose names
  match \<^verbatim>\<open>release_*.md\<close>, the file of this run left out, and there are none without a
  target directory; the new contributors are the authors and docs authors that are not
  among them. So the section is printed if and only if a prior report in the target
  directory mentions a login and an author or docs author of this release is not
  mentioned in the prior reports.
\<close>

theorem new_contributors_section_iff:
  assumes "collect uc cd (BOT_LIST ru) pulls docs_pulls = (st, None)"
  shows "let old = old_contributors uc a; new = new_contributors st old in
      main uc cd ru a pulls docs_pulls
        = (report_head ru a st
           @ fst (contributors_loop uc ru (users st) (contributors st))
           @ (if old \<noteq> [] \<and> new \<noteq> []
              then new_contributors_section ru (users st) (by_name uc (users st) new)
              else []),
           None)
      \<and> new_contributors_section ru (users st) (by_name uc (users st) new) \<noteq> []
      \<and> set new = (set (authors st) \<union> set (docs_authors st)) - set old
      \<and> set old
          = (case target_directory a of
               None \<Rightarrow> {}
             | Some files \<Rightarrow>
                 (\<Union>(file_name, content)
                     \<in> {f \<in> set files.
                          glob_release_md (fst f) \<and> fst f \<noteq> res_file_name (milestone a)}.
                    set (findall uc content)))
      \<and> (old \<noteq> [] \<and> new \<noteq> []
          \<longleftrightarrow> (\<exists>files. target_directory a = Some files
                \<and> (\<exists>(file_name, content) \<in> set files.
                      glob_release_md file_name \<and> file_name \<noteq> res_file_name (milestone a)
                      \<and> findall uc content \<noteq> []))
              \<and> (\<exists>c \<in> set (authors st) \<union> set (docs_authors st). c \<notin> set old))"
proof -
  define old where "old = old_contributors uc a"
  define new where "new = new_contributors st old"
  have printed: "main uc cd ru a pulls docs_pulls
        = (report_head ru a st
           @ fst (contributors_loop uc ru (users st) (contributors st))
           @ (if old \<noteq> [] \<and> new \<noteq> []
              then new_contributors_section ru (users st) (by_name uc (users st) new)
              else []),
           None)"
    using main_output [OF assms, of a] by (simp add: old_def new_def)
  have set_new: "set new = (set (authors st) \<union> set (docs_authors st)) - set old"
    by (simp add: new_def set_new_contributors)
  have set_old: "set old
      = (case target_directory a of
           None \<Rightarrow> {}
         | Some files \<Rightarrow>
             (\<Union>(file_name, content)
                 \<in> {f \<in> set files.
                      glob_release_md (fst f) \<and> fst f \<noteq> res_file_name (milestone a)}.
                set (findall uc content)))"
    by (simp add: old_def set_old_contributors)
  have old_iff: "old \<noteq> []
      \<longleftrightarrow> (\<exists>files. target_directory a = Some files
            \<and> (\<exists>(file_name, content) \<in> set files.
                  glob_release_md file_name \<and> file_name \<noteq> res_file_name (milestone a)
                  \<and> findall uc content \<noteq> []))"
  proof (cases "target_directory a")
    case None
    with set_old show ?thesis by simp
  next
    case (Some files)
    have "old \<noteq> [] \<longleftrightarrow> set old \<noteq> {}" by simp
    also have "\<dots> \<longleftrightarrow> (\<exists>(file_name, content) \<in> set files.
        glob_release_md file_name \<and> file_name \<noteq> res_file_name (milestone a)
        \<and> findall uc content \<noteq> [])"
      unfolding set_old using Some by (simp del: set_empty set_empty2) fastforce
    finally show ?thesis using Some by simp
  qed
  have new_iff: "new \<noteq> [] \<longleftrightarrow> (\<exists>c \<in> set (authors st) \<union> set (docs_authors st). c \<notin> set old)"
  proof -
    have "new \<noteq> [] \<longleftrightarrow> set new \<noteq> {}" by simp
    also have "\<dots> \<longleftrightarrow> (\<exists>c \<in> set (authors st) \<union> set (docs_authors st). c \<notin> set old)"
      unfolding set_new by blast
    finally show ?thesis .
  qed
  from printed set_new set_old old_iff new_iff
    new_contributors_section_not_empty [of ru "users st" "by_name uc (users st) new"]
  show ?thesis
    unfolding Let_def old_def [symmetric] new_def [symmetric] by (intro conjI) simp_all
qed

theorem new_contributors_section_iff_witness:
  "\<forall>uc. (let st = fst (collect uc Map.empty (BOT_LIST example_utils) [pull_100, pull_102] []) in
      old_contributors uc file_args = [''alice'']
      \<and> authors st = [''alice'', ''bob'']
      \<and> new_contributors st [''alice''] = [''bob'']
      \<and> main uc Map.empty example_utils file_args [pull_100, pull_102] []
          = (report_head example_utils file_args st
             @ fst (contributors_loop uc example_utils (users st) (contributors st))
             @ new_contributors_section example_utils (users st) [''bob''],
             None))"
proof (intro allI)
  fix uc
  define st where
    "st = fst (collect uc Map.empty (BOT_LIST example_utils) [pull_100, pull_102] [])"
  have "snd (collect uc Map.empty (BOT_LIST example_utils) [pull_100, pull_102] []) = None"
    by code_simp
  then have run:
    "collect uc Map.empty (BOT_LIST example_utils) [pull_100, pull_102] [] = (st, None)"
    by (simp add: st_def prod_eq_iff)
  have old: "old_contributors uc file_args = [''alice'']" by code_simp
  have authors: "authors st = [''alice'', ''bob'']" unfolding st_def by code_simp
  have new: "new_contributors st [''alice''] = [''bob'']" unfolding st_def by code_simp
  have order: "by_name uc (users st) [''bob''] = [''bob'']" by (simp add: by_name_def)
  from new_contributors_section_iff [OF run, of file_args]
  have "main uc Map.empty example_utils file_args [pull_100, pull_102] []
      = (report_head example_utils file_args st
         @ fst (contributors_loop uc example_utils (users st) (contributors st))
         @ new_contributors_section example_utils (users st) [''bob''],
         None)"
    by (simp add: Let_def old new order)
  with old authors new
  show "let st = fst (collect uc Map.empty (BOT_LIST example_utils) [pull_100, pull_102] []) in
      old_contributors uc file_args = [''alice'']
      \<and> authors st = [''alice'', ''bob'']
      \<and> new_contributors st [''alice''] = [''bob'']
      \<and> main uc Map.empty example_utils file_args [pull_100, pull_102] []
          = (report_head example_utils file_args st
             @ fst (contributors_loop uc example_utils (users st) (contributors st))
             @ new_contributors_section example_utils (users st) [''bob''],
             None)"
    unfolding Let_def st_def [symmetric] by (intro conjI)
qed

text \<open>
  C3, as the specification has it, fails: with a target directory that holds a prior
  report, the section is not printed when every author of this release is mentioned in
  that report.
\<close>

theorem new_contributors_section_counterexample:
  "\<forall>uc. target_directory file_args \<noteq> None
   \<and> prior_reports file_args \<noteq> []
   \<and> (let st = fst (collect uc Map.empty (BOT_LIST example_utils) [pull_100] []) in
        authors st = [''alice'']
        \<and> print_new_contributors uc example_utils (users st) (old_contributors uc file_args)
             (new_contributors st (old_contributors uc file_args)) = ([], None))
   \<and> snd (main uc Map.empty example_utils file_args [pull_100] []) = None"
  by (intro allI) code_simp

section \<open>The name of the report file\<close>

lemma replace_dot_char:
  "(if c = CHR ''.'' then CHR ''_'' else c) = (if is_alnum c then c else CHR ''_'')
     \<longleftrightarrow> is_alnum c \<or> c = CHR ''.'' \<or> c = CHR ''_''"
proof -
  have "\<not> is_alnum (CHR ''.'')" "\<not> is_alnum (CHR ''_'')"
    by (simp_all add: is_alnum_def is_lower_def is_upper_def is_digit_def)
  then show ?thesis by auto
qed

text \<open>
  C9, as the script has it. The file name is \<^verbatim>\<open>release_\<close>, the milestone with every
  dot replaced by an underscore and every other character as it is, and \<^verbatim>\<open>.md\<close>. It
  is the name that the specification describes if and only if every character of the
  milestone that is not alphanumeric is a dot or an underscore.
\<close>

theorem res_file_name_dots:
  "res_file_name m = ''release_'' @ replace_dot m @ ''.md''
   \<and> length (replace_dot m) = length m
   \<and> (\<forall>i < length m. replace_dot m ! i = (if m ! i = CHR ''.'' then CHR ''_'' else m ! i))
   \<and> (res_file_name m = spec_res_file_name m
        \<longleftrightarrow> (\<forall>c \<in> set m. is_alnum c \<or> c = CHR ''.'' \<or> c = CHR ''_''))"
proof -
  have "res_file_name m = spec_res_file_name m
      \<longleftrightarrow> map (\<lambda>c. if c = CHR ''.'' then CHR ''_'' else c) m
          = map (\<lambda>c. if is_alnum c then c else CHR ''_'') m"
    by (simp add: res_file_name_def spec_res_file_name_def replace_dot_def)
  also have "\<dots> \<longleftrightarrow> (\<forall>c \<in> set m. (if c = CHR ''.'' then CHR ''_'' else c)
      = (if is_alnum c then c else CHR ''_''))"
    by (rule map_eq_conv)
  also have "\<dots> \<longleftrightarrow> (\<forall>c \<in> set m. is_alnum c \<or> c = CHR ''.'' \<or> c = CHR ''_'')"
    by (simp only: replace_dot_char)
  finally show ?thesis
    by (simp add: res_file_name_def replace_dot_def)
qed

theorem res_file_name_dots_witness:
  "res_file_name ''0.15.0'' = ''release_0_15_0.md''
   \<and> res_file_name ''0.15.0'' = spec_res_file_name ''0.15.0''
   \<and> res_file_name ''0_5'' = spec_res_file_name ''0_5''
   \<and> length (replace_dot ''0.15.0'') = 6
   \<and> replace_dot ''0.15.0'' ! 1 = CHR ''_''"
proof -
  have chars: "\<forall>c \<in> set ''0.15.0''. is_alnum c \<or> c = CHR ''.'' \<or> c = CHR ''_''"
    "\<forall>c \<in> set ''0_5''. is_alnum c \<or> c = CHR ''.'' \<or> c = CHR ''_''"
    by (simp_all add: is_alnum_def is_lower_def is_upper_def is_digit_def)
  have name: "res_file_name ''0.15.0'' = ''release_0_15_0.md''" by code_simp
  from res_file_name_dots [of "''0.15.0''"] chars(1)
  have same: "res_file_name ''0.15.0'' = spec_res_file_name ''0.15.0''" by blast
  from res_file_name_dots [of "''0_5''"] chars(2)
  have same': "res_file_name ''0_5'' = spec_res_file_name ''0_5''" by blast
  have "length (replace_dot ''0.15.0'') = 6" "replace_dot ''0.15.0'' ! 1 = CHR ''_''"
    by code_simp+
  with name same same' show ?thesis by (intro conjI)
qed

text \<open>
  C9, as the specification has it, fails: a hyphen in the milestone is not a dot, and the
  script leaves it as it is.
\<close>

theorem res_file_name_counterexample:
  "res_file_name ''0.5.0-rc1'' = ''release_0_5_0-rc1.md''
   \<and> spec_res_file_name ''0.5.0-rc1'' = ''release_0_5_0_rc1.md''
   \<and> res_file_name ''0.5.0-rc1'' \<noteq> spec_res_file_name ''0.5.0-rc1''"
  by code_simp

section \<open>Properties of the classification\<close>

lemma dict_set_keys: "fst ` set (dict_set k v d) = insert k (fst ` set d)"
proof (induction d)
  case Nil
  show ?case by simp
next
  case (Cons kv d)
  obtain k' v' where kv: "kv = (k', v')" by (cases kv)
  show ?case
  proof (cases "k' = k")
    case True
    with kv show ?thesis by simp
  next
    case False
    with kv Cons.IH show ?thesis by (simp add: insert_commute)
  qed
qed

lemma sections_of_Cons:
  "sections_of ((s, d) # h) n = (if n \<in> fst ` set d then [s] else []) @ sections_of h n"
  by (simp add: sections_of_def)

lemma sections_of_section_set:
  "section_set s n i h = Some h' \<Longrightarrow> set (sections_of h' n) = insert s (set (sections_of h n))"
proof (induction h arbitrary: h')
  case Nil
  then show ?case by simp
next
  case (Cons sd h)
  obtain s' d where sd: "sd = (s', d)" by (cases sd)
  show ?case
  proof (cases "s' = s")
    case True
    with Cons.prems sd have "h' = (s, dict_set n i d) # h" by simp
    with True sd show ?thesis by (auto simp: sections_of_Cons dict_set_keys)
  next
    case False
    with Cons.prems sd obtain h1 where h1: "section_set s n i h = Some h1" "h' = (s', d) # h1"
      by auto
    from Cons.IH [OF h1(1)] h1(2) sd show ?thesis by (auto simp: sections_of_Cons)
  qed
qed

lemma label_loop_sections:
  "label_loop L n i items (h, a) = ((h', a'), None) \<Longrightarrow>
     set (sections_of h' n) = set (sections_of h n) \<union> {s. \<exists>k \<in> set L. (k, s) \<in> set items}
     \<and> (a' \<longleftrightarrow> a \<or> (\<exists>k \<in> set L. k \<in> fst ` set items))"
proof (induction items arbitrary: h a)
  case Nil
  then show ?case by simp
next
  case (Cons item items)
  obtain k s where item: "item = (k, s)" by (cases item)
  show ?case
  proof (cases "k \<in> set L")
    case False
    with Cons.prems item have "label_loop L n i items (h, a) = ((h', a'), None)" by simp
    note IH = Cons.IH [OF this]
    have "{s'. \<exists>k' \<in> set L. (k', s') \<in> set (item # items)}
        = {s'. \<exists>k' \<in> set L. (k', s') \<in> set items}"
      using False item by auto
    moreover have "(\<exists>k' \<in> set L. k' \<in> fst ` set (item # items))
        \<longleftrightarrow> (\<exists>k' \<in> set L. k' \<in> fst ` set items)"
      using False item by auto
    ultimately show ?thesis using IH by simp
  next
    case True
    with Cons.prems item obtain h1 where h1: "section_set s n i h = Some h1"
      "label_loop L n i items (h1, True) = ((h', a'), None)"
      by (auto split: option.splits)
    have matched: "{s'. \<exists>k' \<in> set L. (k', s') \<in> set (item # items)}
        = insert s {s'. \<exists>k' \<in> set L. (k', s') \<in> set items}"
      using True item by auto
    have assigned: "\<exists>k' \<in> set L. k' \<in> fst ` set (item # items)"
      using True item by auto
    from Cons.IH [OF h1(2)] have "a'"
      and "set (sections_of h' n)
        = set (sections_of h1 n) \<union> {s'. \<exists>k' \<in> set L. (k', s') \<in> set items}"
      by simp_all
    with sections_of_section_set [OF h1(1)] matched assigned
    show ?thesis by simp
  qed
qed

lemma sections_of_distinct: "distinct (map fst h) \<Longrightarrow> distinct (sections_of h n)"
  by (simp add: sections_of_def distinct_map_filter)

lemma first_match_section_in:
  "\<exists>k \<in> set L. k \<in> fst ` set items \<Longrightarrow>
     \<exists>k \<in> set L. (k, first_match_section L items) \<in> set items"
proof (induction items)
  case Nil
  then show ?case by simp
next
  case (Cons item items)
  obtain k s where item: "item = (k, s)" by (cases item)
  show ?case
  proof (cases "k \<in> set L")
    case True
    with item show ?thesis by auto
  next
    case False
    with Cons.prems item have "\<exists>k \<in> set L. k \<in> fst ` set items" by auto
    from Cons.IH [OF this] False item show ?thesis by auto
  qed
qed

lemma first_match_section_other:
  "\<not> (\<exists>k \<in> set L. k \<in> fst ` set items) \<Longrightarrow>
     first_match_section L items = ''Other Pull Requests''"
proof (induction items)
  case Nil
  show ?case by simp
next
  case (Cons item items)
  obtain k s where item: "item = (k, s)" by (cases item)
  from Cons.prems item have "k \<notin> set L" "\<not> (\<exists>k \<in> set L. k \<in> fst ` set items)"
    by auto
  with Cons.IH item show ?case by simp
qed

lemma distinct_singleton: "distinct xs \<Longrightarrow> set xs = {x} \<Longrightarrow> xs = [x]"
proof (cases xs)
  case Nil
  assume "set xs = {x}"
  with Nil show ?thesis by simp
next
  case (Cons y ys)
  assume "distinct xs" "set xs = {x}"
  with Cons have "y = x" "set ys \<subseteq> {x}" "x \<notin> set ys" by auto
  then have "ys = []" by (cases ys) auto
  with Cons \<open>y = x\<close> show ?thesis by simp
qed

lemma other_review_loop [simp]:
  "other_pull_requests (review_loop cd st rs) = other_pull_requests st"
  by (induction rs arbitrary: st) (auto simp: add_reviewer_def split: option.splits)

lemma other_commit_step [simp]:
  "other_pull_requests (commit_step cd st c) = other_pull_requests st"
  by (simp add: commit_step_def add_committer_def add_author_def split: option.splits)

lemma init_sections_distinct: "distinct (map fst init_highlights)"
  by (simp add: init_highlights_def)

lemma pull_body_placed:
  assumes "merged p" "sections_ok st" "placed_sections st (number p) = []"
  shows "snd (pull_body uc cd st p) = None"
    and "distinct (placed_sections (fst (pull_body uc cd st p)) (number p))"
    and "set (placed_sections (fst (pull_body uc cd st p)) (number p))
          = (if \<exists>k \<in> set (map (lower uc) (labels p)). k \<in> fst ` set label_to_section
             then {s. \<exists>k \<in> set (map (lower uc) (labels p)). (k, s) \<in> set label_to_section}
             else {''Other Pull Requests''})"
proof -
  define st2 where "st2 = review_loop cd (commit_step cd st (merge_commit p)) (reviews p)"
  define L where "L = map (lower uc) (labels p)"
  define info where "info = \<lparr>summary = title p, repo = ''napari''\<rparr>"
  have hl: "highlights st2 = highlights st" "other_pull_requests st2 = other_pull_requests st"
    by (simp_all add: st2_def)
  from assms(2) have "snd ` set label_to_section \<subseteq> set (map fst (highlights st))"
    using label_sections_init by (simp only: sections_ok_def)
  from label_loop_ok [OF this]
  obtain h' a' where loop:
    "label_loop L (number p) info label_to_section (highlights st, False) = ((h', a'), None)"
    and keys': "map fst h' = map fst (highlights st)"
    by blast
  have body: "pull_body uc cd st p =
      (if \<not> a'
       then st2\<lparr>highlights := h',
                other_pull_requests := dict_set (number p) info (other_pull_requests st2)\<rparr>
       else st2\<lparr>highlights := h'\<rparr>, None)"
    using assms(1) loop by (simp add: pull_body_def Let_def st2_def L_def info_def)
  from assms(3) have fresh: "sections_of (highlights st) (number p) = []"
    "number p \<notin> fst ` set (other_pull_requests st)"
    by (simp_all add: placed_sections_def split: if_splits)
  from label_loop_sections [OF loop] fresh(1)
  have sections: "set (sections_of h' (number p)) = {s. \<exists>k \<in> set L. (k, s) \<in> set label_to_section}"
    and assigned: "a' \<longleftrightarrow> (\<exists>k \<in> set L. k \<in> fst ` set label_to_section)"
    by simp_all
  have no_match: "sections_of h' (number p) = []" if "\<not> a'"
  proof -
    from that assigned have "{s. \<exists>k \<in> set L. (k, s) \<in> set label_to_section} = {}" by force
    with sections show ?thesis by simp
  qed
  from keys' assms(2) have keys: "map fst h' = map fst init_highlights"
    by (simp add: sections_ok_def)
  then have dist: "distinct (sections_of h' (number p))"
    using init_sections_distinct sections_of_distinct by metis
  show "snd (pull_body uc cd st p) = None" by (simp add: body)
  show "distinct (placed_sections (fst (pull_body uc cd st p)) (number p))"
    using dist no_match fresh(2) hl by (simp add: body placed_sections_def dict_set_keys)
  show "set (placed_sections (fst (pull_body uc cd st p)) (number p))
          = (if \<exists>k \<in> set (map (lower uc) (labels p)). k \<in> fst ` set label_to_section
             then {s. \<exists>k \<in> set (map (lower uc) (labels p)). (k, s) \<in> set label_to_section}
             else {''Other Pull Requests''})"
    using sections assigned no_match fresh(2) hl
    by (simp add: body placed_sections_def dict_set_keys L_def [symmetric])
qed

text \<open>
  C1, as the script has it. A merged pull request of the main repository that is not yet
  listed anywhere is listed in the section of every key of the table that is among its
  lower-cased labels, and in the other pull requests if and only if no key of the table is
  among them. It is listed in one section only, the section of the first key of the table
  that is among the labels, if and only if all keys of the table that are among the labels
  belong to the same section.
\<close>

theorem pull_request_sections:
  assumes "merged p" "sections_ok st" "placed_sections st (number p) = []"
  shows "snd (pull_body uc cd st p) = None
    \<and> distinct (placed_sections (fst (pull_body uc cd st p)) (number p))
    \<and> set (placed_sections (fst (pull_body uc cd st p)) (number p))
        = (if \<exists>k \<in> set (map (lower uc) (labels p)). k \<in> fst ` set label_to_section
           then {s. \<exists>k \<in> set (map (lower uc) (labels p)). (k, s) \<in> set label_to_section}
           else {''Other Pull Requests''})
    \<and> (placed_sections (fst (pull_body uc cd st p)) (number p)
          = [first_match_section (map (lower uc) (labels p)) label_to_section]
        \<longleftrightarrow> (\<forall>k \<in> set (map (lower uc) (labels p)). \<forall>k' \<in> set (map (lower uc) (labels p)).
              \<forall>s s'. (k, s) \<in> set label_to_section \<and> (k', s') \<in> set label_to_section
                \<longrightarrow> s = s'))"
proof -
  define L where "L = map (lower uc) (labels p)"
  define placed where "placed = placed_sections (fst (pull_body uc cd st p)) (number p)"
  define matched where "matched = {s. \<exists>k \<in> set L. (k, s) \<in> set label_to_section}"
  have no_error: "snd (pull_body uc cd st p) = None"
    by (rule pull_body_placed(1) [OF assms])
  have dist: "distinct placed"
    using pull_body_placed(2) [OF assms, of uc cd] by (simp add: placed_def)
  have set_placed: "set placed
      = (if \<exists>k \<in> set L. k \<in> fst ` set label_to_section then matched
         else {''Other Pull Requests''})"
    using pull_body_placed(3) [OF assms, of uc cd] by (simp add: L_def placed_def matched_def)
  have first_in: "first_match_section L label_to_section \<in> set placed"
  proof (cases "\<exists>k \<in> set L. k \<in> fst ` set label_to_section")
    case True
    from first_match_section_in [OF this] True set_placed show ?thesis
      by (auto simp: matched_def)
  next
    case False
    from first_match_section_other [OF this] False set_placed show ?thesis by simp
  qed
  have one_section: "placed = [first_match_section L label_to_section]
      \<longleftrightarrow> (\<forall>k \<in> set L. \<forall>k' \<in> set L.
            \<forall>s s'. (k, s) \<in> set label_to_section \<and> (k', s') \<in> set label_to_section \<longrightarrow> s = s')"
  proof
    assume one: "placed = [first_match_section L label_to_section]"
    show "\<forall>k \<in> set L. \<forall>k' \<in> set L.
            \<forall>s s'. (k, s) \<in> set label_to_section \<and> (k', s') \<in> set label_to_section \<longrightarrow> s = s'"
    proof (intro ballI allI impI)
      fix k k' s s'
      assume k: "k \<in> set L" "k' \<in> set L"
        and s: "(k, s) \<in> set label_to_section \<and> (k', s') \<in> set label_to_section"
      then have "s \<in> matched" "s' \<in> matched" by (auto simp: matched_def)
      moreover from k s have "\<exists>k \<in> set L. k \<in> fst ` set label_to_section" by force
      ultimately have "s \<in> set placed" "s' \<in> set placed" using set_placed by simp_all
      with one show "s = s'" by simp
    qed
  next
    assume same: "\<forall>k \<in> set L. \<forall>k' \<in> set L.
            \<forall>s s'. (k, s) \<in> set label_to_section \<and> (k', s') \<in> set label_to_section \<longrightarrow> s = s'"
    have "set placed = {first_match_section L label_to_section}"
    proof (cases "\<exists>k \<in> set L. k \<in> fst ` set label_to_section")
      case False
      from first_match_section_other [OF this] False set_placed show ?thesis by simp
    next
      case True
      with set_placed have placed: "set placed = matched" by simp
      have "s = first_match_section L label_to_section" if "s \<in> matched" for s
      proof -
        from that obtain k where k: "k \<in> set L" "(k, s) \<in> set label_to_section"
          by (auto simp: matched_def)
        from first_match_section_in [OF True]
        obtain k' where k': "k' \<in> set L"
          "(k', first_match_section L label_to_section) \<in> set label_to_section"
          by blast
        from same k k' show ?thesis by blast
      qed
      then have "matched \<subseteq> {first_match_section L label_to_section}" by blast
      moreover from first_in placed have "first_match_section L label_to_section \<in> matched"
        by simp
      ultimately have "matched = {first_match_section L label_to_section}" by blast
      with placed show ?thesis by simp
    qed
    with dist show "placed = [first_match_section L label_to_section]"
      by (rule distinct_singleton)
  qed
  from no_error dist set_placed one_section show ?thesis
    unfolding L_def placed_def matched_def by (intro conjI)
qed

theorem pull_request_sections_witness:
  "\<forall>uc. merged pull_100
   \<and> sections_ok init_state
   \<and> placed_sections init_state (number pull_100) = []
   \<and> snd (pull_body uc Map.empty init_state pull_100) = None
   \<and> placed_sections (fst (pull_body uc Map.empty init_state pull_100)) (number pull_100)
       = [''Bug Fixes'']
   \<and> first_match_section (map (lower uc) (labels pull_100)) label_to_section = ''Bug Fixes''"
  (is "\<forall>uc. ?P uc")
proof (intro allI)
  fix uc
  have merged: "merged pull_100" by (simp add: pull_100_def)
  have ok: "sections_ok init_state" using init_state_ok by simp
  have fresh: "placed_sections init_state (number pull_100) = []" by code_simp
  have placed:
    "placed_sections (fst (pull_body uc Map.empty init_state pull_100)) (number pull_100)
       = [''Bug Fixes'']"
    by code_simp
  have first: "first_match_section (map (lower uc) (labels pull_100)) label_to_section = ''Bug Fixes''"
    by code_simp
  from pull_request_sections [OF merged ok fresh, of uc Map.empty]
  have "snd (pull_body uc Map.empty init_state pull_100) = None" by (rule conjunct1)
  with merged ok fresh placed first show "?P uc" by (intro conjI)
qed

text \<open>
  C1, as the specification has it, fails: the loop over the table has no
  \<^verbatim>\<open>break\<close>, so a pull request with the labels \<^verbatim>\<open>bug\<close> and \<^verbatim>\<open>Feature\<close> is listed
  under the new features and under the bug fixes, not only in the section of the first
  key.
\<close>

theorem pull_request_sections_counterexample:
  "\<forall>uc. merged two_label_pull
   \<and> map (lower uc) (labels two_label_pull) = [''bug'', ''feature'']
   \<and> first_match_section (map (lower uc) (labels two_label_pull)) label_to_section = ''Bug Fixes''
   \<and> placed_sections (fst (pull_body uc Map.empty init_state two_label_pull))
        (number two_label_pull) = [''New Features'', ''Bug Fixes'']
   \<and> sections_of (highlights (fst (collect uc Map.empty {} [two_label_pull] [])))
        (number two_label_pull) = [''New Features'', ''Bug Fixes'']"
  by (intro allI) code_simp

section \<open>Scanning a report for logins\<close>

lemma no_at_Nil [simp]: "no_at []"
  by (simp add: no_at_def)

lemma no_at_Cons [simp]: "no_at (x # s) \<longleftrightarrow> x \<noteq> CHR ''@'' \<and> no_at s"
  by (auto simp: no_at_def)

lemma no_at_append [simp]: "no_at (s @ t) \<longleftrightarrow> no_at s \<and> no_at t"
  by (auto simp: no_at_def)

lemma no_at_concat: "(\<And>s. s \<in> set ss \<Longrightarrow> no_at s) \<Longrightarrow> no_at (concat ss)"
  by (induction ss) auto

lemma no_at_newline [simp]: "no_at newline"
  by (simp add: newline_def)

lemma no_at_print_line [simp]: "no_at (print_line s) \<longleftrightarrow> no_at s"
  by (simp add: print_line_def)

lemma at_not_login_char: "\<not> is_login_char (CHR ''@'')"
  by (simp add: is_login_char_def is_word_char_def is_lower_def is_upper_def is_digit_def)

lemma newline_not_login_char: "\<not> is_login_char (CHR 0x0A)"
  by (simp add: is_login_char_def is_word_char_def is_lower_def is_upper_def is_digit_def)

lemma valid_login_no_at: "valid_login c \<Longrightarrow> no_at c"
  using at_not_login_char by (auto simp: valid_login_def no_at_def)

lemma findall_no_at: "no_at s \<Longrightarrow> findall uc (s @ t) = findall uc t"
  by (induction s) auto

lemma login_char_ascii: "is_login_char x \<Longrightarrow> is_ascii x"
proof -
  have "CHR ''z'' \<le> CHR 0x7F" "CHR ''Z'' \<le> CHR 0x7F" "CHR ''9'' \<le> CHR 0x7F"
    by simp_all
  moreover assume "is_login_char x"
  ultimately show ?thesis
    by (auto simp: is_login_char_def is_word_char_def is_lower_def is_upper_def is_digit_def
        is_ascii_def intro: order_trans)
qed

lemma login_run_login:
  "\<forall>x \<in> set c. is_login_char x \<Longrightarrow> login_run uc (c @ newline @ t) = length c"
proof (induction c)
  case Nil
  show ?case
    using newline_not_login_char by (simp add: newline_def is_ascii_def)
next
  case (Cons x c)
  then show ?case by (simp add: login_char_ascii)
qed

lemma findall_login:
  assumes "valid_login c"
  shows "findall uc (CHR ''@'' # c @ newline @ t) = c # findall uc t"
proof -
  from assms have c: "c \<noteq> []" "\<forall>x \<in> set c. is_login_char x"
    by (simp_all add: valid_login_def)
  have run: "login_run uc (c @ newline @ t) = length c"
    using c(2) by (rule login_run_login)
  have "findall uc (newline @ t) = findall uc t"
    by (rule findall_no_at) simp
  with run c(1) show ?thesis by simp
qed

lemma digit_char_not_at: "d < 10 \<Longrightarrow> digit_char d \<noteq> CHR ''@''"
proof
  assume d: "d < 10" and eq: "digit_char d = CHR ''@''"
  then have "of_char (digit_char d) = (of_char (CHR ''@'') :: nat)" by simp
  with d show False by (simp add: digit_char_def)
qed

lemma no_at_str_nat: "no_at (str_nat n)"
proof (induction n rule: str_nat.induct)
  case (1 n)
  show ?case
  proof (cases "n < 10")
    case True
    then show ?thesis using digit_char_not_at [of n] by (subst str_nat.simps) simp
  next
    case False
    have "n mod 10 < 10" by simp
    from digit_char_not_at [OF this] 1 [OF False] False show ?thesis
      by (subst str_nat.simps) simp
  qed
qed

lemma no_at_str_int [simp]: "no_at (str_int i)"
  by (simp add: str_int_def no_at_str_nat)

lemma no_at_title_line [simp]: "no_at (title_line m) \<longleftrightarrow> no_at m"
  by (simp add: title_line_def)

lemma no_at_announcement [simp]: "no_at (announcement m) \<longleftrightarrow> no_at m"
  by (simp add: announcement_def)

lemma no_at_website [simp]: "no_at website"
  by (simp add: website_def)

lemma no_at_pull_request_line:
  assumes "no_at (GH ru)" "no_at (GH_USER ru)" "no_at (summary info)" "no_at (repo info)"
  shows "no_at (pull_request_line ru (n, info))"
  using assms by (simp add: pull_request_line_def)

lemma no_at_print_section:
  assumes "no_at (GH ru)" "no_at (GH_USER ru)" "no_at s" "no_at_dict d"
  shows "no_at (print_section ru (s, d))"
proof -
  have "no_at (concat (map (\<lambda>p. print_line (pull_request_line ru p)) d))"
  proof (rule no_at_concat)
    fix l assume "l \<in> set (map (\<lambda>p. print_line (pull_request_line ru p)) d)"
    then obtain n info where p: "(n, info) \<in> set d"
      "l = print_line (pull_request_line ru (n, info))"
      by auto
    with assms(4) have "no_at (summary info)" "no_at (repo info)"
      by (auto simp: no_at_dict_def)
    with assms(1,2) p(2) show "no_at l" by (simp add: no_at_pull_request_line)
  qed
  with assms(3) show ?thesis by (simp add: print_section_def)
qed

lemma no_at_print_highlights:
  assumes "no_at (GH ru)" "no_at (GH_USER ru)" "no_at_highlights h"
  shows "no_at (print_highlights ru h)"
  unfolding print_highlights_def
proof (rule no_at_concat)
  fix l assume "l \<in> set (map (print_section ru) h)"
  then obtain s d where sd: "(s, d) \<in> set h" "l = print_section ru (s, d)" by auto
  with assms(3) have "no_at s" "no_at_dict d" by (auto simp: no_at_highlights_def)
  with assms(1,2) sd(2) show "no_at l" by (simp add: no_at_print_section)
qed

lemma no_at_report_head:
  assumes "no_at (GH ru)" "no_at (GH_USER ru)" "no_at (milestone a)"
    "no_at_highlights (highlights st)"
  shows "no_at (report_head ru a st)"
  using assms by (simp add: report_head_def no_at_print_highlights)

lemma no_at_contributors_heading:
  "no_at section_name \<Longrightarrow> no_at (contributors_heading section_name cs)"
  by (simp add: contributors_heading_def)

lemma findall_contributor_line:
  assumes "no_at (GH ru)" "no_at (GH_USER ru)" "no_at (GH_REPO ru)"
    "valid_login c" "no_at display_name"
  shows "findall uc (print_line (contributor_line ru display_name c) @ t) = c # findall uc t"
proof -
  have line: "print_line (contributor_line ru display_name c) @ t
      = (''- ['' @ display_name @ '']('' @ commit_link ru c @ '') - '')
        @ CHR ''@'' # c @ newline @ t"
    by (simp add: print_line_def contributor_line_def)
  have "no_at (''- ['' @ display_name @ '']('' @ commit_link ru c @ '') - '')"
    using assms valid_login_no_at [of c] by (simp add: commit_link_def)
  then show ?thesis
    unfolding line using findall_login [OF assms(4), of uc t] by (simp only: findall_no_at)
qed

lemma findall_bullets:
  assumes "no_at (GH ru)" "no_at (GH_USER ru)" "no_at (GH_REPO ru)"
    "\<forall>c \<in> set cs. valid_login c \<and> no_at (the (m c))"
  shows "findall uc (concat (map (\<lambda>c. print_line (contributor_line ru (the (m c)) c)) cs) @ t)
           = cs @ findall uc t"
  using assms(4)
proof (induction cs)
  case Nil
  show ?case by simp
next
  case (Cons c cs)
  then have c: "valid_login c" "no_at (the (m c))" by simp_all
  from Cons have "findall uc (concat (map (\<lambda>c. print_line (contributor_line ru (the (m c)) c)) cs) @ t)
           = cs @ findall uc t" by simp
  with findall_contributor_line [OF assms(1-3) c] show ?case by simp
qed

lemma contributors_loop_findall:
  assumes "no_at (GH ru)" "no_at (GH_USER ru)" "no_at (GH_REPO ru)"
    "\<forall>(section_name, cs) \<in> set sets.
       no_at section_name \<and> set cs \<subseteq> dom m \<and> (\<forall>c \<in> set cs. valid_login c \<and> no_at (the (m c)))"
  shows "snd (contributors_loop uc ru m sets) = None
    \<and> findall uc (fst (contributors_loop uc ru m sets) @ t)
        = concat (map (\<lambda>(section_name, cs). sort_key (\<lambda>x. lower uc (the (m x))) cs) sets)
          @ findall uc t"
  using assms(4)
proof (induction sets)
  case Nil
  show ?case by simp
next
  case (Cons s sets)
  obtain section_name cs where s: "s = (section_name, cs)" by (cases s)
  define sorted_cs where "sorted_cs = sort_key (\<lambda>x. lower uc (the (m x))) cs"
  define heading where "heading = print_line [] @ print_line (contributors_heading section_name cs)
      @ print_line []"
  define bullets where
    "bullets = concat (map (\<lambda>c. print_line (contributor_line ru (the (m c)) c)) sorted_cs)"
  from Cons.prems s have cs: "no_at section_name" "set cs \<subseteq> dom m"
    "\<forall>c \<in> set cs. valid_login c \<and> no_at (the (m c))"
    by simp_all
  from Cons have IH: "snd (contributors_loop uc ru m sets) = None"
    "findall uc (fst (contributors_loop uc ru m sets) @ t)
        = concat (map (\<lambda>(section_name, cs). sort_key (\<lambda>x. lower uc (the (m x))) cs) sets)
          @ findall uc t"
    by simp_all
  have sorted: "sorted_by_name uc m cs = Inr sorted_cs"
    using sorted_by_name_ok [OF cs(2)] by (simp add: sorted_cs_def)
  have set_sorted: "set sorted_cs = set cs" by (simp add: sorted_cs_def)
  with cs(2) have "set sorted_cs \<subseteq> dom m" by simp
  from print_contributors_ok [OF this]
  have printed: "print_contributors ru m sorted_cs = (bullets, None)"
    by (simp add: bullets_def)
  obtain out' e' where rest: "contributors_loop uc ru m sets = (out', e')"
    by (cases "contributors_loop uc ru m sets")
  with IH have e': "e' = None" and rest_find: "findall uc (out' @ t)
        = concat (map (\<lambda>(section_name, cs). sort_key (\<lambda>x. lower uc (the (m x))) cs) sets)
          @ findall uc t"
    by simp_all
  have loop: "contributors_loop uc ru m (s # sets)
      = (heading @ bullets @ print_line [] @ out', None)"
    using s sorted printed rest e' by (simp add: heading_def)
  have "no_at heading"
    using cs(1) by (simp add: heading_def no_at_contributors_heading)
  then have "findall uc ((heading @ bullets @ print_line [] @ out') @ t)
      = findall uc (bullets @ (print_line [] @ out' @ t))"
    using findall_no_at [of heading uc "bullets @ print_line [] @ out' @ t"] by simp
  also have "\<dots> = sorted_cs @ findall uc (print_line [] @ out' @ t)"
    unfolding bullets_def
    using cs(3) set_sorted by (intro findall_bullets [OF assms(1-3)]) simp
  also have "findall uc (print_line [] @ out' @ t) = findall uc (out' @ t)"
    by (rule findall_no_at) simp
  finally show ?case
    using loop rest_find s by (simp add: sorted_cs_def)
qed

lemma print_new_contributors_findall:
  assumes "no_at (GH ru)" "no_at (GH_USER ru)" "no_at (GH_REPO ru)"
    "set new \<subseteq> dom m" "\<forall>c \<in> set new. valid_login c \<and> no_at (the (m c))"
  shows "set (findall uc (fst (print_new_contributors uc ru m old new))) \<subseteq> set new"
proof (cases "old \<noteq> [] \<and> new \<noteq> []")
  case False
  then show ?thesis by (auto simp: print_new_contributors_def)
next
  case True
  define sorted_new where "sorted_new = sort_key (\<lambda>x. lower uc (the (m x))) new"
  define heading where "heading = print_line ''## New Contributors'' @ print_line []
      @ print_line (''There are '' @ str_int (int (length new))
                    @ '' new contributors for this release:'')
      @ print_line []"
  define bullets where
    "bullets = concat (map (\<lambda>c. print_line (contributor_line ru (the (m c)) c)) sorted_new)"
  have sorted: "sorted_by_name uc m new = Inr sorted_new"
    using sorted_by_name_ok [OF assms(4)] by (simp add: sorted_new_def)
  have set_sorted: "set sorted_new = set new" by (simp add: sorted_new_def)
  with assms(4) have "set sorted_new \<subseteq> dom m" by simp
  from print_contributors_ok [OF this]
  have printed: "print_contributors ru m sorted_new = (bullets, None)"
    by (simp add: bullets_def)
  have out: "fst (print_new_contributors uc ru m old new) = heading @ bullets"
    using True sorted printed by (simp add: print_new_contributors_def heading_def)
  have "no_at heading" by (simp add: heading_def)
  then have "findall uc (heading @ bullets) = findall uc (bullets @ [])"
    using findall_no_at [of heading uc bullets] by simp
  also have "\<dots> = sorted_new @ findall uc []"
    unfolding bullets_def
    using assms(5) set_sorted by (intro findall_bullets [OF assms(1-3)]) simp
  finally show ?thesis using out set_sorted by simp
qed

lemma dict_set_subset: "set (dict_set k v d) \<subseteq> insert (k, v) (set d)"
  by (induction d) (auto split: if_splits)

lemma no_at_dict_set:
  "no_at_dict d \<Longrightarrow> no_at (summary info) \<Longrightarrow> no_at (repo info) \<Longrightarrow>
     no_at_dict (dict_set n info d)"
  using dict_set_subset [of n info d] by (auto simp: no_at_dict_def)

lemma no_at_section_set:
  assumes "no_at (summary info)" "no_at (repo info)"
  shows "no_at_highlights h \<Longrightarrow> section_set s n info h = Some h' \<Longrightarrow> no_at_highlights h'"
proof (induction h arbitrary: h')
  case Nil
  then show ?case by simp
next
  case (Cons sd h)
  obtain s' d where sd: "sd = (s', d)" by (cases sd)
  from Cons.prems(1) sd have head: "no_at s'" "no_at_dict d" and tail: "no_at_highlights h"
    by (simp_all add: no_at_highlights_def)
  show ?case
  proof (cases "s' = s")
    case True
    with Cons.prems(2) sd have "h' = (s', dict_set n info d) # h" by simp
    with head tail no_at_dict_set [OF head(2) assms] show ?thesis
      by (simp add: no_at_highlights_def)
  next
    case False
    with Cons.prems(2) sd obtain h1 where h1: "section_set s n info h = Some h1"
      "h' = (s', d) # h1"
      by auto
    from Cons.IH [OF tail h1(1)] head h1(2) show ?thesis
      by (simp add: no_at_highlights_def)
  qed
qed

lemma no_at_label_loop:
  assumes "no_at (summary info)" "no_at (repo info)"
  shows "no_at_highlights h \<Longrightarrow> label_loop L n info items (h, a) = ((h', a'), e) \<Longrightarrow>
    no_at_highlights h'"
proof (induction items arbitrary: h a)
  case Nil
  then show ?case by simp
next
  case (Cons item items)
  obtain k s where item: "item = (k, s)" by (cases item)
  show ?case
  proof (cases "k \<in> set L")
    case False
    with Cons.prems(2) item have "label_loop L n info items (h, a) = ((h', a'), e)" by simp
    from Cons.IH [OF Cons.prems(1) this] show ?thesis .
  next
    case True
    show ?thesis
    proof (cases "section_set s n info h")
      case None
      with True Cons.prems item show ?thesis by simp
    next
      case (Some h1)
      with True Cons.prems(2) item
      have "label_loop L n info items (h1, True) = ((h', a'), e)" by simp
      from Cons.IH [OF no_at_section_set [OF assms Cons.prems(1) Some] this]
      show ?thesis .
    qed
  qed
qed

lemma titles_ok_pull_body:
  assumes "titles_ok st" "no_at (title p)"
  shows "titles_ok (fst (pull_body uc cd st p))"
proof (cases "merged p")
  case False
  with assms(1) show ?thesis by (simp add: pull_body_def)
next
  case True
  define st2 where "st2 = review_loop cd (commit_step cd st (merge_commit p)) (reviews p)"
  define info where "info = \<lparr>summary = title p, repo = ''napari''\<rparr>"
  have info: "no_at (summary info)" "no_at (repo info)"
    using assms(2) by (simp_all add: info_def)
  have st2: "highlights st2 = highlights st" "other_pull_requests st2 = other_pull_requests st"
    by (simp_all add: st2_def)
  obtain h' a' e where loop: "label_loop (map (lower uc) (labels p)) (number p) info
      label_to_section (highlights st, False) = ((h', a'), e)"
    by (metis surj_pair)
  from assms(1) have "no_at_highlights (highlights st)" by (simp add: titles_ok_def)
  from no_at_label_loop [OF info this loop] have h': "no_at_highlights h'" .
  from assms(1) have "no_at_dict (other_pull_requests st)" by (simp add: titles_ok_def)
  from this no_at_dict_set [OF this info, of "number p"] h' True loop st2
  show ?thesis
    by (cases e) (simp_all add: pull_body_def Let_def st2_def [symmetric] info_def [symmetric]
        titles_ok_def)
qed

lemma titles_ok_docs_pull_body:
  assumes "titles_ok st" "no_at (title p)"
  shows "titles_ok (fst (docs_pull_body uc cd st p))"
proof (cases "merged p")
  case False
  with assms(1) show ?thesis by (simp add: docs_pull_body_def)
next
  case True
  define st2 where
    "st2 = docs_review_loop cd (add_docs_author cd st (issue_user p)) (reviews p)"
  define info where "info = \<lparr>summary = title p, repo = ''docs''\<rparr>"
  have info: "no_at (summary info)" "no_at (repo info)"
    using assms(2) by (simp_all add: info_def)
  have other: "other_pull_requests (docs_review_loop cd s rs) = other_pull_requests s" for s rs
    by (induction rs arbitrary: s) (auto simp: add_docs_reviewer_def split: option.splits)
  have st2: "highlights st2 = highlights st" "other_pull_requests st2 = other_pull_requests st"
    by (simp_all add: st2_def other add_docs_author_def)
  from assms(1) have ok: "no_at_highlights (highlights st)" "no_at_dict (other_pull_requests st)"
    by (simp_all add: titles_ok_def)
  have doc_section: "no_at_highlights h"
    if "section_set ''Documentation'' (number p) info (highlights st) = Some h" for h
    using no_at_section_set [OF info ok(1) that] .
  from ok no_at_dict_set [OF ok(2) info, of "number p"] doc_section True st2
  show ?thesis
    by (cases "section_set ''Documentation'' (number p) info (highlights st)")
      (simp_all add: docs_pull_body_def Let_def st2_def [symmetric] info_def [symmetric]
        titles_ok_def)
qed

lemma titles_ok_for_loop:
  assumes "\<And>st x. titles_ok st \<Longrightarrow> x \<in> set xs \<Longrightarrow> titles_ok (fst (body st x))"
  shows "titles_ok st \<Longrightarrow> titles_ok (fst (for_loop body st xs))"
  using assms
proof (induction xs arbitrary: st)
  case Nil
  then show ?case by simp
next
  case (Cons x xs)
  obtain st1 e where step: "body st x = (st1, e)" by (cases "body st x")
  from Cons.prems(1) Cons.prems(2) [of st x] step have st1: "titles_ok st1" by simp
  show ?case
  proof (cases e)
    case None
    have "titles_ok (fst (for_loop body st1 xs))"
      using st1 Cons.prems(2) by (intro Cons.IH) simp_all
    with step None show ?thesis by simp
  next
    case (Some err)
    with step st1 show ?thesis by simp
  qed
qed

lemma titles_ok_init: "titles_ok init_state"
  by (simp add: titles_ok_def init_state_def init_highlights_def no_at_highlights_def
      no_at_dict_def)

lemma no_at_highlights_collect:
  assumes "\<forall>p \<in> set pulls \<union> set docs_pulls. no_at (title p)"
    "collect uc cd bots pulls docs_pulls = (st, None)"
  shows "no_at_highlights (highlights st)"
proof -
  define st1 where "st1 = fst (for_loop (pull_body uc cd) init_state pulls)"
  define st2 where "st2 = fst (for_loop (docs_pull_body uc cd) st1 docs_pulls)"
  have "titles_ok st1"
    unfolding st1_def using titles_ok_init assms(1)
    by (intro titles_ok_for_loop titles_ok_pull_body) simp_all
  then have "titles_ok st2"
    unfolding st2_def using assms(1)
    by (intro titles_ok_for_loop titles_ok_docs_pull_body) simp_all
  then have ok: "no_at_highlights (highlights st2)" "no_at_dict (other_pull_requests st2)"
    by (simp_all add: titles_ok_def)
  have other: "no_at_highlights (dict_set ''Other Pull Requests'' (other_pull_requests st2)
      (highlights st2))"
    using ok dict_set_subset [of "''Other Pull Requests''" "other_pull_requests st2"
        "highlights st2"]
    by (auto simp: no_at_highlights_def)
  from assms(2) have "st = finish bots st2"
    by (auto simp: collect_def st1_def st2_def split: prod.splits option.splits)
  with other show ?thesis by (simp add: finish_def)
qed

text \<open>
  C5, as the script has it. When the collection got through, and neither the milestone,
  the constants of the links, the titles of the pull requests nor the display names of
  the printed contributors contain an \<^verbatim>\<open>@\<close>, and every printed login is a non-empty
  string of word characters and hyphens, then the run prints the whole report and the
  scan of the report finds exactly the logins of the four printed role sets.
\<close>

theorem report_round_trip:
  assumes "collect uc cd (BOT_LIST ru) pulls docs_pulls = (st, None)"
    and "no_at (milestone a)" "no_at (GH ru)" "no_at (GH_USER ru)" "no_at (GH_REPO ru)"
    and "\<forall>p \<in> set pulls \<union> set docs_pulls. no_at (title p)"
    and "\<forall>c \<in> set (authors st) \<union> set (reviewers st) \<union> set (docs_authors st)
              \<union> set (docs_reviewers st).
           valid_login c \<and> no_at (the (users st c))"
  shows "snd (main uc cd ru a pulls docs_pulls) = None
    \<and> set (findall uc (fst (main uc cd ru a pulls docs_pulls)))
        = set (authors st) \<union> set (reviewers st) \<union> set (docs_authors st)
          \<union> set (docs_reviewers st)"
proof -
  define old where "old = old_contributors uc a"
  define new where "new = new_contributors st old"
  define printed where "printed = set (authors st) \<union> set (reviewers st)
      \<union> set (docs_authors st) \<union> set (docs_reviewers st)"
  from collect_result [of uc cd "BOT_LIST ru" pulls docs_pulls] assms(1)
  have "logins_known st" by auto
  then have known: "printed \<subseteq> dom (users st)"
    by (auto simp: logins_known_def printed_def)
  have new_sub: "set new \<subseteq> printed"
    by (auto simp: new_def new_contributors_def printed_def)
  have sets: "\<forall>(section_name, cs) \<in> set (contributors st).
       no_at section_name \<and> set cs \<subseteq> dom (users st)
       \<and> (\<forall>c \<in> set cs. valid_login c \<and> no_at (the (users st c)))"
    using known assms(7) by (auto simp: contributors_def printed_def)
  have sorted_sets:
    "set (concat (map (\<lambda>(section_name, cs). sort_key (\<lambda>x. lower uc (the (users st x))) cs)
       (contributors st))) = printed"
    by (auto simp: contributors_def printed_def)
  obtain out e where loop: "contributors_loop uc ru (users st) (contributors st) = (out, e)"
    by (cases "contributors_loop uc ru (users st) (contributors st)")
  obtain out' e' where new_section: "print_new_contributors uc ru (users st) old new = (out', e')"
    by (cases "print_new_contributors uc ru (users st) old new")
  from contributors_loop_findall [OF assms(3-5) sets, of uc out'] loop
  have e: "e = None"
    and scan: "findall uc (out @ out')
      = concat (map (\<lambda>(section_name, cs). sort_key (\<lambda>x. lower uc (the (users st x))) cs)
          (contributors st)) @ findall uc out'"
    by simp_all
  have new_known: "set new \<subseteq> dom (users st)" using new_sub known by blast
  from print_new_contributors_ok [OF this, of uc ru old] new_section have e': "e' = None" by simp
  have new_valid: "\<forall>c \<in> set new. valid_login c \<and> no_at (the (users st c))"
    using new_sub assms(7) by (auto simp: printed_def)
  from print_new_contributors_findall [OF assms(3-5) new_known new_valid, of uc old] new_section
  have scan': "set (findall uc out') \<subseteq> printed" using new_sub by auto
  have result: "main uc cd ru a pulls docs_pulls = (report_head ru a st @ out @ out', None)"
    using assms(1) loop new_section e e' by (simp add: main_def old_def new_def)
  have "no_at (report_head ru a st)"
    using assms(2-4) no_at_highlights_collect [OF assms(6,1)] by (intro no_at_report_head)
  then have "findall uc (report_head ru a st @ out @ out') = findall uc (out @ out')"
    by (rule findall_no_at)
  with scan have "set (findall uc (report_head ru a st @ out @ out'))
      = printed \<union> set (findall uc out')"
    using sorted_sets by simp
  with scan' have "set (findall uc (report_head ru a st @ out @ out')) = printed" by blast
  with result show ?thesis by (simp add: printed_def)
qed


theorem report_round_trip_witness:
  "\<forall>uc. snd (main uc Map.empty example_utils file_args [pull_100, pull_102] []) = None
   \<and> set (findall uc (fst (main uc Map.empty example_utils file_args [pull_100, pull_102] [])))
       = {''alice'', ''bob''}
   \<and> authors (fst (collect uc Map.empty (BOT_LIST example_utils) [pull_100, pull_102] []))
       = [''alice'', ''bob'']"
  (is "\<forall>uc. ?P uc")
proof (intro allI)
  fix uc
  define st where "st = fst (collect uc Map.empty (BOT_LIST example_utils) [pull_100, pull_102] [])"
  have "snd (collect uc Map.empty (BOT_LIST example_utils) [pull_100, pull_102] []) = None"
    by code_simp
  then have run: "collect uc Map.empty (BOT_LIST example_utils) [pull_100, pull_102] [] = (st, None)"
    by (simp add: st_def prod_eq_iff)
  have texts: "no_at (milestone file_args)" "no_at (GH example_utils)"
    "no_at (GH_USER example_utils)" "no_at (GH_REPO example_utils)"
    by code_simp+
  have titles: "\<forall>p \<in> set [pull_100, pull_102] \<union> set []. no_at (title p)"
    by code_simp
  have logins: "\<forall>c \<in> set (authors st) \<union> set (reviewers st) \<union> set (docs_authors st)
        \<union> set (docs_reviewers st).
      valid_login c \<and> no_at (the (users st c))"
    unfolding st_def by code_simp
  have sets: "authors st = [''alice'', ''bob'']" "reviewers st = []" "docs_authors st = []"
    "docs_reviewers st = []"
    unfolding st_def by code_simp+
  from report_round_trip [OF run texts titles logins] sets show "?P uc"
    by (auto simp: st_def)
qed

text \<open>
  C5, as the specification has it, fails. A mention in the title of a pull request is
  found although it was not written as a bullet; the login of a bot, which has brackets,
  is written as a bullet and found without them; and a display name with an \<^verbatim>\<open>@\<close>
  gives a login that was not written.
\<close>

theorem report_round_trip_counterexample:
  "\<forall>uc. authors (fst (collect uc Map.empty (BOT_LIST example_utils) [mention_pull] [])) = [''alice'']
   \<and> reviewers (fst (collect uc Map.empty (BOT_LIST example_utils) [mention_pull] [])) = []
   \<and> snd (main uc Map.empty example_utils stdout_args [mention_pull] []) = None
   \<and> findall uc (fst (main uc Map.empty example_utils stdout_args [mention_pull] []))
       = [''ghost'', ''alice'']
   \<and> reviewers (fst (collect uc Map.empty (BOT_LIST example_utils) [bot_reviewed_pull] []))
       = [''dependabot[bot]'']
   \<and> findall uc (fst (main uc Map.empty example_utils stdout_args [bot_reviewed_pull] []))
       = [''alice'', ''dependabot'']
   \<and> authors (fst (collect uc Map.empty (BOT_LIST example_utils) [pull_105] [])) = [''eve'']
   \<and> findall uc (fst (main uc Map.empty example_utils stdout_args [pull_105] []))
       = [''home'', ''eve'']"
  by (intro allI) code_simp

end
